theory Spec2Isabelle
  imports Main "HOL-Library.Word"
begin

unbundle bit_operations_syntax

section \<open>Entity identity (ECS.h, lines 8-47)\<close>

text \<open>
  \<^verbatim>\<open>ComponentID\<close> and \<^verbatim>\<open>EntityID\<close> are \<^verbatim>\<open>unsigned long long\<close>, \<^verbatim>\<open>EntityIndex\<close> and
  \<^verbatim>\<open>EntityVersion\<close> are \<^verbatim>\<open>unsigned int\<close>, and \<^verbatim>\<open>ComponentMask\<close> is
  \<^verbatim>\<open>std::bitset<MAX_COMPONENTS>\<close>: a row of 64 bits, kept here as a 64-bit word whose bit
  \<open>n\<close> is the bitset's position \<open>n\<close>.
\<close>

type_synonym ComponentID = "64 word"
type_synonym EntityIndex = "32 word"
type_synonym EntityVersion = "32 word"
type_synonym EntityID = "64 word"
type_synonym ComponentMask = "64 word"

definition MAX_COMPONENTS :: nat where
  "MAX_COMPONENTS = 64"

definition MAX_ENTITIES :: nat where
  "MAX_ENTITIES = 1000000"

definition CreateEntityId :: "EntityIndex \<Rightarrow> EntityVersion \<Rightarrow> EntityID" where
  "CreateEntityId index version = push_bit 32 (ucast index) OR ucast version"

definition GetEntityIndex :: "EntityID \<Rightarrow> EntityIndex" where
  "GetEntityIndex eid = ucast (drop_bit 32 eid)"

definition GetEntityVersion :: "EntityID \<Rightarrow> EntityVersion" where
  "GetEntityVersion eid = ucast eid"

text \<open>\<^verbatim>\<open>(id >> 32) != EntityIndex(-1)\<close>: the right-hand side is promoted to 64 bits.\<close>

definition IsEntityValid :: "EntityID \<Rightarrow> bool" where
  "IsEntityValid eid = (drop_bit 32 eid \<noteq> ucast (- 1 :: EntityIndex))"

definition INVALID_ENTITY :: EntityID where
  "INVALID_ENTITY = CreateEntityId (- 1) 0"

section \<open>Faults\<close>

text \<open>
  The source reports nothing but null pointers. What it leaves undefined or throws is a
  fault of the model: indexing a \<^verbatim>\<open>std::vector\<close> past its size, addressing a pool past
  \<^verbatim>\<open>MAX_ENTITIES\<close> elements, the \<^verbatim>\<open>std::out_of_range\<close> that \<^verbatim>\<open>std::bitset\<close> throws from
  \<^verbatim>\<open>set\<close>, \<^verbatim>\<open>reset\<close> and \<^verbatim>\<open>test\<close> at a position of 64 or more, and the overflow of the
  \<^verbatim>\<open>int\<close> counter of \<^verbatim>\<open>RosterView::begin\<close>.
\<close>

datatype fault = VectorOutOfBounds | PoolOutOfBounds | BitsetOutOfRange | SignedOverflow

definition bitset_set :: "ComponentMask \<Rightarrow> ComponentID \<Rightarrow> fault + ComponentMask" where
  "bitset_set m pos =
     (if unat pos < MAX_COMPONENTS then Inr (set_bit (unat pos) m) else Inl BitsetOutOfRange)"

definition bitset_reset :: "ComponentMask \<Rightarrow> ComponentID \<Rightarrow> fault + ComponentMask" where
  "bitset_reset m pos =
     (if unat pos < MAX_COMPONENTS then Inr (unset_bit (unat pos) m) else Inl BitsetOutOfRange)"

definition bitset_test :: "ComponentMask \<Rightarrow> ComponentID \<Rightarrow> fault + bool" where
  "bitset_test m pos =
     (if unat pos < MAX_COMPONENTS then Inr (bit m (unat pos)) else Inl BitsetOutOfRange)"

section \<open>Component type identities (ECS.h, lines 17 and 49-54)\<close>

text \<open>
  \<^verbatim>\<open>GetId<T>\<close> holds one function-local static per component type, initialised on the
  first call from the process-wide counter, which is then incremented. The statics and
  the counter are the global state: a partial map from component types to identities and
  the counter.
\<close>

record 'ty Globals =
  s_componentCounter :: ComponentID
  s_componentId :: "'ty \<rightharpoonup> ComponentID"

definition GetId :: "'ty \<Rightarrow> 'ty Globals \<Rightarrow> ComponentID \<times> 'ty Globals" where
  "GetId t g =
     (case s_componentId g t of
        Some c \<Rightarrow> (c, g)
      | None \<Rightarrow>
          (s_componentCounter g,
           g\<lparr>s_componentId := (s_componentId g)(t \<mapsto> s_componentCounter g),
             s_componentCounter := s_componentCounter g + 1\<rparr>))"

section \<open>Component pools (ECS.h, lines 56-83)\<close>

text \<open>
  A pool is an arena of \<^verbatim>\<open>MAX_ENTITIES * m_elementSize\<close> bytes read at the fixed stride
  \<^verbatim>\<open>m_elementSize\<close>; it is kept as the map from element index to the object constructed
  there (no entry: raw memory). A pointer into a pool is the pair of the pool's position
  in the registry and the element index; \<open>None\<close> is the null pointer.
\<close>

record 'v ComponentPool =
  m_elementSize :: nat
  m_data :: "nat \<rightharpoonup> 'v"

type_synonym ptr = "ComponentID \<times> nat"

definition ComponentPool_new :: "nat \<Rightarrow> 'v ComponentPool" where
  "ComponentPool_new elementSize = \<lparr>m_elementSize = elementSize, m_data = Map.empty\<rparr>"

definition ComponentPool_Get :: "'v ComponentPool \<Rightarrow> nat \<Rightarrow> fault + nat" where
  "ComponentPool_Get p index = (if index < MAX_ENTITIES then Inr index else Inl PoolOutOfBounds)"

section \<open>World (ECS.h, lines 85-207)\<close>

record EntityDesc =
  m_id :: EntityID
  m_mask :: ComponentMask

record 'v World =
  m_entities :: "EntityDesc list"
  m_freeEntities :: "EntityIndex list"
  m_componentPools :: "'v ComponentPool option list"

text \<open>\<^verbatim>\<open>std::vector::resize(n, x)\<close>: cut to \<open>n\<close> elements, or filled up to \<open>n\<close> with \<open>x\<close>.\<close>

definition vector_resize :: "nat \<Rightarrow> 'a \<Rightarrow> 'a list \<Rightarrow> 'a list" where
  "vector_resize n x xs = take n xs @ replicate (n - length xs) x"

definition World_new :: "'v World" where
  "World_new = \<lparr>m_entities = [], m_freeEntities = [], m_componentPools = []\<rparr>"

definition Globals_new :: "'ty Globals" where
  "Globals_new = \<lparr>s_componentCounter = 0, s_componentId = Map.empty\<rparr>"

definition NewEntity :: "'v World \<Rightarrow> fault + (EntityID \<times> 'v World)" where
  "NewEntity w =
     (if m_freeEntities w \<noteq> [] then
        let newIndex = last (m_freeEntities w);
            w1 = w\<lparr>m_freeEntities := butlast (m_freeEntities w)\<rparr>
        in if unat newIndex < length (m_entities w1) then
             let newID = CreateEntityId newIndex
                           (GetEntityVersion (m_id (m_entities w1 ! unat newIndex)));
                 w2 = w1\<lparr>m_entities := (m_entities w1)
                           [unat newIndex := (m_entities w1 ! unat newIndex)\<lparr>m_id := newID\<rparr>]\<rparr>
             in Inr (m_id (m_entities w2 ! unat newIndex), w2)
           else Inl VectorOutOfBounds
      else
        let w1 = w\<lparr>m_entities := m_entities w @
                     [\<lparr>m_id = CreateEntityId (of_nat (length (m_entities w))) 0, m_mask = 0\<rparr>]\<rparr>
        in Inr (m_id (last (m_entities w1)), w1))"

text \<open>
  The index pushed on the free list is \<^verbatim>\<open>GetEntityIndex(GetEntityIndex(id))\<close>: the inner
  32-bit result is widened to an \<^verbatim>\<open>EntityID\<close> and shifted down again.
\<close>

definition DestroyEntity :: "EntityID \<Rightarrow> 'v World \<Rightarrow> fault + 'v World" where
  "DestroyEntity eid w =
     (let newID = CreateEntityId (- 1) (GetEntityVersion eid + 1);
          i = unat (GetEntityIndex eid)
      in if i < length (m_entities w) then
           let w1 = w\<lparr>m_entities := (m_entities w)[i := (m_entities w ! i)\<lparr>m_id := newID\<rparr>]\<rparr>;
               w2 = w1\<lparr>m_entities := (m_entities w1)[i := (m_entities w1 ! i)\<lparr>m_mask := 0\<rparr>]\<rparr>
           in Inr (w2\<lparr>m_freeEntities := m_freeEntities w2 @
                        [GetEntityIndex (ucast (GetEntityIndex eid))]\<rparr>)
         else Inl VectorOutOfBounds)"

text \<open>
  \<^verbatim>\<open>Assign<T>(id, args...)\<close>: \<open>t\<close> is the component type, \<open>sz\<close> its \<^verbatim>\<open>sizeof\<close> and \<open>v\<close> the
  object that the placement new constructs from the arguments. The result is the pointer
  returned, with the globals and the world as the call leaves them.
\<close>

definition Assign ::
  "'ty \<Rightarrow> nat \<Rightarrow> 'v \<Rightarrow> EntityID \<Rightarrow> 'ty Globals \<times> 'v World
     \<Rightarrow> fault + (ptr option \<times> 'ty Globals \<times> 'v World)" where
  "Assign t sz v eid s =
     (let (componentId, g) = GetId t (fst s);
          w = snd s;
          i = unat (GetEntityIndex eid)
      in if \<not> i < length (m_entities w) then Inl VectorOutOfBounds
         else if m_id (m_entities w ! i) \<noteq> eid then Inr (None, g, w)
         else
           let w1 = (if unat componentId \<ge> length (m_componentPools w)
                     then w\<lparr>m_componentPools :=
                              vector_resize (unat (componentId + 1)) None (m_componentPools w)\<rparr>
                     else w)
           in if \<not> unat componentId < length (m_componentPools w1) then Inl VectorOutOfBounds
              else
                let w2 = (if m_componentPools w1 ! unat componentId = None
                          then w1\<lparr>m_componentPools := (m_componentPools w1)
                                    [unat componentId := Some (ComponentPool_new sz)]\<rparr>
                          else w1);
                    pool = the (m_componentPools w2 ! unat componentId)
                in case ComponentPool_Get pool i of
                     Inl e \<Rightarrow> Inl e
                   | Inr a \<Rightarrow>
                       let w3 = w2\<lparr>m_componentPools := (m_componentPools w2)
                                    [unat componentId := Some (pool\<lparr>m_data := (m_data pool)(a \<mapsto> v)\<rparr>)]\<rparr>
                       in (case bitset_set (m_mask (m_entities w3 ! i)) componentId of
                             Inl e \<Rightarrow> Inl e
                           | Inr m \<Rightarrow>
                               Inr (Some (componentId, a), g,
                                    w3\<lparr>m_entities := (m_entities w3)
                                         [i := (m_entities w3 ! i)\<lparr>m_mask := m\<rparr>]\<rparr>)))"

definition Remove ::
  "'ty \<Rightarrow> EntityID \<Rightarrow> 'ty Globals \<times> 'v World \<Rightarrow> fault + ('ty Globals \<times> 'v World)" where
  "Remove t eid s =
     (let w = snd s;
          i = unat (GetEntityIndex eid)
      in if \<not> i < length (m_entities w) then Inl VectorOutOfBounds
         else if m_id (m_entities w ! i) \<noteq> eid then Inr s
         else
           let (componentId, g) = GetId t (fst s)
           in case bitset_reset (m_mask (m_entities w ! i)) componentId of
                Inl e \<Rightarrow> Inl e
              | Inr m \<Rightarrow>
                  Inr (g, w\<lparr>m_entities := (m_entities w)[i := (m_entities w ! i)\<lparr>m_mask := m\<rparr>]\<rparr>))"

definition Get ::
  "'ty \<Rightarrow> EntityID \<Rightarrow> 'ty Globals \<times> 'v World
     \<Rightarrow> fault + (ptr option \<times> 'ty Globals \<times> 'v World)" where
  "Get t eid s =
     (let (componentId, g) = GetId t (fst s);
          w = snd s;
          i = unat (GetEntityIndex eid)
      in if \<not> i < length (m_entities w) then Inl VectorOutOfBounds
         else case bitset_test (m_mask (m_entities w ! i)) componentId of
                Inl e \<Rightarrow> Inl e
              | Inr b \<Rightarrow>
                  if \<not> b then Inr (None, g, w)
                  else if unat componentId < length (m_componentPools w)
                          \<and> m_componentPools w ! unat componentId \<noteq> None
                  then case ComponentPool_Get (the (m_componentPools w ! unat componentId)) i of
                         Inl e \<Rightarrow> Inl e
                       | Inr a \<Rightarrow> Inr (Some (componentId, a), g, w)
                  else Inr (None, g, w))"

definition Has ::
  "'ty \<Rightarrow> EntityID \<Rightarrow> 'ty Globals \<times> 'v World
     \<Rightarrow> fault + (bool \<times> 'ty Globals \<times> 'v World)" where
  "Has t eid s =
     (case Get t eid s of
        Inl e \<Rightarrow> Inl e
      | Inr (p, s') \<Rightarrow> Inr (\<not> (p = None), s'))"

definition World_All :: "'v World \<Rightarrow> EntityDesc list" where
  "World_All w = m_entities w"

section \<open>RosterView (ECS.h, lines 209-300)\<close>

text \<open>
  A view is at once the range and its own iterator. \<^verbatim>\<open>m_rosterPtr\<close> always points to the
  world the view was built on, which the functions below take as an argument. The
  template parameter pack is the list \<open>ts\<close> of component types.
\<close>

record RosterView =
  m_index :: EntityIndex
  m_componentMask :: ComponentMask
  m_all :: bool

text \<open>The pack expansion \<^verbatim>\<open>GetId<ComponentTypes>() ...\<close> of a braced list, left to right.\<close>

fun GetIds :: "'ty list \<Rightarrow> 'ty Globals \<Rightarrow> ComponentID list \<times> 'ty Globals" where
  "GetIds [] g = ([], g)"
| "GetIds (t # ts) g =
     (let (c, g1) = GetId t g;
          (cs, g2) = GetIds ts g1
      in (c # cs, g2))"

text \<open>\<^verbatim>\<open>for (ComponentID componentId : componentIds) m_componentMask.set(componentId);\<close>\<close>

fun set_each :: "ComponentID list \<Rightarrow> ComponentMask \<Rightarrow> fault + ComponentMask" where
  "set_each [] m = Inr m"
| "set_each (c # cs) m =
     (case bitset_set m c of
        Inl e \<Rightarrow> Inl e
      | Inr m' \<Rightarrow> set_each cs m')"

text \<open>
  The public constructor. The array it walks is \<^verbatim>\<open>{ 0, GetId<ComponentTypes>() ... }\<close>,
  with the leading \<open>0\<close>.
\<close>

definition RosterView_new :: "'ty list \<Rightarrow> 'ty Globals \<Rightarrow> fault + (RosterView \<times> 'ty Globals)" where
  "RosterView_new ts g =
     (if length ts = 0 then Inr (\<lparr>m_index = 0, m_componentMask = 0, m_all = True\<rparr>, g)
      else
        let (componentIds, g') = GetIds ts g
        in case set_each (0 # componentIds) 0 of
             Inl e \<Rightarrow> Inl e
           | Inr m \<Rightarrow> Inr (\<lparr>m_index = 0, m_componentMask = m, m_all = False\<rparr>, g'))"

text \<open>The private constructor delegates to the public one, then sets index and mask.\<close>

definition RosterView_at ::
  "'ty list \<Rightarrow> EntityIndex \<Rightarrow> ComponentMask \<Rightarrow> 'ty Globals \<Rightarrow> fault + (RosterView \<times> 'ty Globals)" where
  "RosterView_at ts index cmask g =
     (case RosterView_new ts g of
        Inl e \<Rightarrow> Inl e
      | Inr (v, g') \<Rightarrow> Inr (v\<lparr>m_index := index, m_componentMask := cmask\<rparr>, g'))"

text \<open>\<^verbatim>\<open>operator*\<close>\<close>

definition deref :: "'v World \<Rightarrow> RosterView \<Rightarrow> fault + EntityID" where
  "deref w v =
     (if unat (m_index v) < length (World_All w) then Inr (m_id (World_All w ! unat (m_index v)))
      else Inl VectorOutOfBounds)"

text \<open>\<^verbatim>\<open>operator!=\<close>; the index is widened to \<^verbatim>\<open>size_t\<close> for the second comparison.\<close>

definition not_equal :: "'v World \<Rightarrow> RosterView \<Rightarrow> RosterView \<Rightarrow> bool" where
  "not_equal w v other = (m_index v \<noteq> m_index other \<and> unat (m_index v) \<noteq> length (World_All w))"

text \<open>\<^verbatim>\<open>ValidIndex\<close> is only called behind the test \<^verbatim>\<open>m_index < All().size()\<close>.\<close>

definition ValidIndex :: "'v World \<Rightarrow> RosterView \<Rightarrow> bool" where
  "ValidIndex w v =
     (let validEntity = IsEntityValid (m_id (World_All w ! unat (m_index v)));
          validComponentMask =
            (m_all v \<or> m_componentMask v = (m_componentMask v AND m_mask (World_All w ! unat (m_index v))))
      in validEntity \<and> validComponentMask)"

text \<open>
  \<^verbatim>\<open>operator++\<close>: a do-while loop on the 32-bit \<^verbatim>\<open>m_index\<close>, which wraps around. Nothing
  in the loop bounds the number of rounds when the table holds \<open>2 ^ 32\<close> slots or more,
  so a run that never ends is the value \<open>None\<close>.
\<close>

partial_function (option) advance :: "'v World \<Rightarrow> RosterView \<Rightarrow> RosterView option" where
  "advance w v =
     (let v' = v\<lparr>m_index := m_index v + 1\<rparr>
      in if unat (m_index v') < length (World_All w) \<and> \<not> ValidIndex w v' then advance w v'
         else Some v')"

text \<open>
  The loop of \<^verbatim>\<open>begin\<close> counts in an \<^verbatim>\<open>int\<close>, which the comparison with the size widens
  to \<^verbatim>\<open>size_t\<close>; the counter is never negative, and incrementing it past \<open>2 ^ 31 - 1\<close>
  is undefined. The loop does not look at \<^verbatim>\<open>m_all\<close>.
\<close>

function begin_scan :: "'v World \<Rightarrow> ComponentMask \<Rightarrow> nat \<Rightarrow> fault + nat" where
  "begin_scan w cmask firstIndex =
     (if firstIndex < length (World_All w)
         \<and> (cmask \<noteq> (cmask AND m_mask (World_All w ! firstIndex))
              \<or> \<not> IsEntityValid (m_id (World_All w ! firstIndex)))
      then if firstIndex = 2 ^ 31 - 1 then Inl SignedOverflow
           else begin_scan w cmask (firstIndex + 1)
      else Inr firstIndex)"
  by pat_completeness auto
termination
  by (relation "measure (\<lambda>(w, cmask, firstIndex). length (World_All w) - firstIndex)") auto

declare begin_scan.simps [simp del]

definition RosterView_begin ::
  "'ty list \<Rightarrow> 'v World \<Rightarrow> RosterView \<Rightarrow> 'ty Globals \<Rightarrow> fault + (RosterView \<times> 'ty Globals)" where
  "RosterView_begin ts w v g =
     (case begin_scan w (m_componentMask v) 0 of
        Inl e \<Rightarrow> Inl e
      | Inr firstIndex \<Rightarrow> RosterView_at ts (of_nat firstIndex) (m_componentMask v) g)"

definition RosterView_end ::
  "'ty list \<Rightarrow> 'v World \<Rightarrow> RosterView \<Rightarrow> 'ty Globals \<Rightarrow> fault + (RosterView \<times> 'ty Globals)" where
  "RosterView_end ts w v g = RosterView_at ts (of_nat (length (World_All w))) (m_componentMask v) g"

text \<open>
  The range-based \<^verbatim>\<open>for (auto entity : RosterView<Ts...>(r))\<close> of Main.cpp: the loop
  \<^verbatim>\<open>for (; it != end; ++it) { auto entity = *it; ... }\<close>. Each round is recorded as the
  position \<^verbatim>\<open>m_index\<close> of the iterator and the handle \<^verbatim>\<open>*it\<close> handed to the body.
\<close>

partial_function (option) for_loop ::
  "'v World \<Rightarrow> RosterView \<Rightarrow> RosterView \<Rightarrow> (fault + (EntityIndex \<times> EntityID) list) option" where
  "for_loop w it end_it =
     (if not_equal w it end_it then
        case deref w it of
          Inl e \<Rightarrow> Some (Inl e)
        | Inr entity \<Rightarrow>
            Option.bind (advance w it) (\<lambda>it'.
            Option.bind (for_loop w it' end_it) (\<lambda>r.
              Some (case r of
                      Inl e \<Rightarrow> Inl e
                    | Inr rest \<Rightarrow> Inr ((m_index it, entity) # rest))))
      else Some (Inr []))"

definition RosterView_traverse ::
  "'ty list \<Rightarrow> 'ty Globals \<times> 'v World
     \<Rightarrow> (fault + ((EntityIndex \<times> EntityID) list \<times> 'ty Globals)) option" where
  "RosterView_traverse ts s =
     (case RosterView_new ts (fst s) of
        Inl e \<Rightarrow> Some (Inl e)
      | Inr (view, g1) \<Rightarrow>
          (case RosterView_begin ts (snd s) view g1 of
             Inl e \<Rightarrow> Some (Inl e)
           | Inr (it, g2) \<Rightarrow>
               (case RosterView_end ts (snd s) view g2 of
                  Inl e \<Rightarrow> Some (Inl e)
                | Inr (end_it, g3) \<Rightarrow>
                    (case for_loop (snd s) it end_it of
                       None \<Rightarrow> None
                     | Some (Inl e) \<Rightarrow> Some (Inl e)
                     | Some (Inr visited) \<Rightarrow> Some (Inr (visited, g3))))))"

section \<open>The slots a traversal visits\<close>

text \<open>
  The test a slot has to pass, as \<^verbatim>\<open>ValidIndex\<close> and the loop of \<^verbatim>\<open>begin\<close> state it; the
  first index from \<open>k\<close> on that passes a test \<open>q\<close>, or \<open>n\<close> when none does; and the list of
  positions and stored handles of all passing slots in ascending order.
\<close>

definition qualifies :: "'v World \<Rightarrow> bool \<Rightarrow> ComponentMask \<Rightarrow> nat \<Rightarrow> bool" where
  "qualifies w all cmask i =
     (IsEntityValid (m_id (World_All w ! i))
      \<and> (all \<or> cmask = (cmask AND m_mask (World_All w ! i))))"

function next_from :: "(nat \<Rightarrow> bool) \<Rightarrow> nat \<Rightarrow> nat \<Rightarrow> nat" where
  "next_from q n k = (if k < n \<and> \<not> q k then next_from q n (Suc k) else k)"
  by pat_completeness auto
termination
  by (relation "measure (\<lambda>(q, n, k). n - k)") auto

declare next_from.simps [simp del]

definition visited_slots :: "'v World \<Rightarrow> bool \<Rightarrow> ComponentMask \<Rightarrow> (EntityIndex \<times> EntityID) list" where
  "visited_slots w all cmask =
     map (\<lambda>i. (of_nat i, m_id (World_All w ! i)))
         (filter (qualifies w all cmask) [0..<length (World_All w)])"

section \<open>Call sequences\<close>

text \<open>
  A client of the library is a sequence of calls on one world, starting from a fresh
  \<^verbatim>\<open>World\<close> and fresh globals. Running it stops at the first fault and otherwise gives the
  log of the calls with what each returned, and the final state. A traversal that never
  returns makes the run \<open>None\<close>.
\<close>

type_synonym ('ty, 'v) state = "'ty Globals \<times> 'v World"

datatype ('ty, 'v) call =
    NewEntity_call
  | DestroyEntity_call EntityID
  | Assign_call 'ty nat 'v EntityID
  | Remove_call 'ty EntityID
  | Get_call 'ty EntityID
  | Has_call 'ty EntityID
  | Traverse_call "'ty list"

datatype ret =
    Handle EntityID
  | Pointer "ptr option"
  | Flag bool
  | Unit
  | Visited "(EntityIndex \<times> EntityID) list"

fun exec ::
  "('ty, 'v) call \<Rightarrow> ('ty, 'v) state \<Rightarrow> (fault + (ret \<times> ('ty, 'v) state)) option" where
  "exec NewEntity_call s =
     Some (case NewEntity (snd s) of
             Inl e \<Rightarrow> Inl e
           | Inr (h, w') \<Rightarrow> Inr (Handle h, (fst s, w')))"
| "exec (DestroyEntity_call h) s =
     Some (case DestroyEntity h (snd s) of
             Inl e \<Rightarrow> Inl e
           | Inr w' \<Rightarrow> Inr (Unit, (fst s, w')))"
| "exec (Assign_call t sz v h) s =
     Some (case Assign t sz v h s of
             Inl e \<Rightarrow> Inl e
           | Inr (p, s') \<Rightarrow> Inr (Pointer p, s'))"
| "exec (Remove_call t h) s =
     Some (case Remove t h s of
             Inl e \<Rightarrow> Inl e
           | Inr s' \<Rightarrow> Inr (Unit, s'))"
| "exec (Get_call t h) s =
     Some (case Get t h s of
             Inl e \<Rightarrow> Inl e
           | Inr (p, s') \<Rightarrow> Inr (Pointer p, s'))"
| "exec (Has_call t h) s =
     Some (case Has t h s of
             Inl e \<Rightarrow> Inl e
           | Inr (b, s') \<Rightarrow> Inr (Flag b, s'))"
| "exec (Traverse_call ts) s =
     (case RosterView_traverse ts s of
        None \<Rightarrow> None
      | Some (Inl e) \<Rightarrow> Some (Inl e)
      | Some (Inr (visited, g')) \<Rightarrow> Some (Inr (Visited visited, (g', snd s))))"

fun run ::
  "('ty, 'v) call list \<Rightarrow> ('ty, 'v) state
     \<Rightarrow> (fault + ((('ty, 'v) call \<times> ret) list \<times> ('ty, 'v) state)) option" where
  "run [] s = Some (Inr ([], s))"
| "run (c # cs) s =
     (case exec c s of
        None \<Rightarrow> None
      | Some (Inl e) \<Rightarrow> Some (Inl e)
      | Some (Inr (r, s')) \<Rightarrow>
          (case run cs s' of
             None \<Rightarrow> None
           | Some (Inl e) \<Rightarrow> Some (Inl e)
           | Some (Inr (log, s'')) \<Rightarrow> Some (Inr ((c, r) # log, s''))))"

definition fresh :: "('ty, 'v) state" where
  "fresh = (Globals_new, World_new)"

text \<open>What the calls of a run returned, in order.\<close>

definition returns :: "(fault + ((('ty, 'v) call \<times> ret) list \<times> ('ty, 'v) state)) option \<Rightarrow> ret list option" where
  "returns r = (case r of Some (Inr (log, s)) \<Rightarrow> Some (map snd log) | _ \<Rightarrow> None)"

section \<open>Handles and slots\<close>

text \<open>
  A handle addresses the slot at its index. It is live when that slot exists and stores
  the handle itself, stale when the slot exists and stores something else.
\<close>

definition live :: "EntityID \<Rightarrow> 'v World \<Rightarrow> bool" where
  "live h w = (unat (GetEntityIndex h) < length (m_entities w)
                 \<and> m_id (m_entities w ! unat (GetEntityIndex h)) = h)"

definition stale :: "EntityID \<Rightarrow> 'v World \<Rightarrow> bool" where
  "stale h w = (unat (GetEntityIndex h) < length (m_entities w)
                 \<and> m_id (m_entities w ! unat (GetEntityIndex h)) \<noteq> h)"

text \<open>The world after two calls of \<^verbatim>\<open>NewEntity\<close> on a fresh one.\<close>

definition two_entities :: "'v World" where
  "two_entities = \<lparr>m_entities = [\<lparr>m_id = CreateEntityId 0 0, m_mask = 0\<rparr>,
                                  \<lparr>m_id = CreateEntityId 1 0, m_mask = 0\<rparr>],
                    m_freeEntities = [], m_componentPools = []\<rparr>"

text \<open>
  The state after \<^verbatim>\<open>e = NewEntity(); DestroyEntity(e); f = NewEntity(); Assign<Transform>(f)\<close>
  on a fresh world, with a 4-byte \<^verbatim>\<open>Transform\<close> holding 7: slot 0 is recycled, its handle has
  generation 1 and carries the component of identity 0.
\<close>

definition one_type :: "string Globals" where
  "one_type = \<lparr>s_componentCounter = 1, s_componentId = [''Transform'' \<mapsto> 0]\<rparr>"

definition recycled_world :: "nat World" where
  "recycled_world =
     \<lparr>m_entities = [\<lparr>m_id = CreateEntityId 0 1, m_mask = 1\<rparr>],
      m_freeEntities = [],
      m_componentPools = [Some \<lparr>m_elementSize = 4, m_data = [0 \<mapsto> 7]\<rparr>]\<rparr>"

text \<open>
  The state of Main.cpp reduced to one component type: three entities with a
  \<^verbatim>\<open>Transform\<close> each, the second one destroyed afterwards.
\<close>

definition second_destroyed :: "nat World" where
  "second_destroyed =
     \<lparr>m_entities = [\<lparr>m_id = CreateEntityId 0 0, m_mask = 1\<rparr>,
                     \<lparr>m_id = CreateEntityId (- 1) 1, m_mask = 0\<rparr>,
                     \<lparr>m_id = CreateEntityId 2 0, m_mask = 1\<rparr>],
      m_freeEntities = [0],
      m_componentPools = [Some \<lparr>m_elementSize = 4, m_data = [0 \<mapsto> 1, 1 \<mapsto> 2, 2 \<mapsto> 3]\<rparr>]\<rparr>"

section \<open>Histories\<close>

text \<open>
  C4 reads the log of a run: a component type \<open>T\<close> counts as attached to a handle \<open>h\<close>
  when some earlier \<^verbatim>\<open>Assign<T>(h, ...)\<close> returned a pointer and no later call was
  \<^verbatim>\<open>Remove<T>(h)\<close> or \<^verbatim>\<open>DestroyEntity(h)\<close>. This first reading follows the words of the
  claim: only a destruction through \<open>h\<close> itself undoes the assignment.
\<close>

fun kept_step_as_stated ::
  "'ty \<Rightarrow> EntityID \<Rightarrow> bool \<Rightarrow> ('ty, 'v) call \<times> ret \<Rightarrow> bool" where
  "kept_step_as_stated t h b (Assign_call t' sz v h', r) =
     (if t' = t \<and> h' = h \<and> r \<noteq> Pointer None then True else b)"
| "kept_step_as_stated t h b (Remove_call t' h', r) = (if t' = t \<and> h' = h then False else b)"
| "kept_step_as_stated t h b (DestroyEntity_call h', r) = (if h' = h then False else b)"
| "kept_step_as_stated t h b (c, r) = b"

definition assigned_and_kept_as_stated ::
  "'ty \<Rightarrow> EntityID \<Rightarrow> (('ty, 'v) call \<times> ret) list \<Rightarrow> bool" where
  "assigned_and_kept_as_stated t h log = foldl (kept_step_as_stated t h) False log"

text \<open>
  The second reading differs in one place: a destruction through any handle with the
  index of \<open>h\<close> undoes the assignment, since \<^verbatim>\<open>DestroyEntity\<close> clears the slot it
  addresses whatever handle the slot stores.
\<close>

fun kept_step ::
  "'ty \<Rightarrow> EntityID \<Rightarrow> bool \<Rightarrow> ('ty, 'v) call \<times> ret \<Rightarrow> bool" where
  "kept_step t h b (Assign_call t' sz v h', r) =
     (if t' = t \<and> h' = h \<and> r \<noteq> Pointer None then True else b)"
| "kept_step t h b (Remove_call t' h', r) = (if t' = t \<and> h' = h then False else b)"
| "kept_step t h b (DestroyEntity_call h', r) =
     (if GetEntityIndex h' = GetEntityIndex h then False else b)"
| "kept_step t h b (c, r) = b"

definition assigned_and_kept ::
  "'ty \<Rightarrow> EntityID \<Rightarrow> (('ty, 'v) call \<times> ret) list \<Rightarrow> bool" where
  "assigned_and_kept t h log = foldl (kept_step t h) False log"

text \<open>
  What every state reached from a fresh one satisfies. The registry: finitely many
  types are registered, the counter is their number, every identity is below the
  counter and no two types share one. The masks: a set bit is a registered identity
  whose pool exists, in a slot below \<^verbatim>\<open>MAX_ENTITIES\<close>. The slots: a slot with a non-empty
  mask stores a handle with its own index. The log: a type is attached to a handle
  according to the log exactly when the handle is live and the bit of the type's
  identity is set in its slot.
\<close>

definition registry_ok :: "'ty Globals \<Rightarrow> bool" where
  "registry_ok g =
     (finite (dom (s_componentId g))
      \<and> unat (s_componentCounter g) = card (dom (s_componentId g))
      \<and> (\<forall>t c. s_componentId g t = Some c \<longrightarrow> unat c < unat (s_componentCounter g))
      \<and> (\<forall>t t' c. s_componentId g t = Some c \<and> s_componentId g t' = Some c \<longrightarrow> t = t'))"

definition masks_ok :: "('ty, 'v) state \<Rightarrow> bool" where
  "masks_ok s =
     (\<forall>i < length (m_entities (snd s)). \<forall>c.
        bit (m_mask (m_entities (snd s) ! i)) c \<longrightarrow>
          c < unat (s_componentCounter (fst s))
        \<and> c < length (m_componentPools (snd s))
        \<and> m_componentPools (snd s) ! c \<noteq> None
        \<and> i < MAX_ENTITIES)"

definition slots_ok :: "'v World \<Rightarrow> bool" where
  "slots_ok w =
     (\<forall>i < length (m_entities w).
        m_mask (m_entities w ! i) \<noteq> 0 \<longrightarrow> unat (GetEntityIndex (m_id (m_entities w ! i))) = i)"

definition has_bit :: "'ty \<Rightarrow> EntityID \<Rightarrow> ('ty, 'v) state \<Rightarrow> bool" where
  "has_bit t h s =
     (live h (snd s)
      \<and> (\<exists>c. s_componentId (fst s) t = Some c \<and> unat c < 64
             \<and> bit (m_mask (m_entities (snd s) ! unat (GetEntityIndex h))) (unat c)))"

definition log_ok :: "('ty, 'v) state \<Rightarrow> (('ty, 'v) call \<times> ret) list \<Rightarrow> bool" where
  "log_ok s log = (\<forall>t h. assigned_and_kept t h log = has_bit t h s)"

definition inv :: "('ty, 'v) state \<Rightarrow> (('ty, 'v) call \<times> ret) list \<Rightarrow> bool" where
  "inv s log = (registry_ok (fst s) \<and> masks_ok s \<and> slots_ok (snd s) \<and> log_ok s log)"

text \<open>
  The obligation of a client towards \<^verbatim>\<open>DestroyEntity\<close>: every handle it destroys is live
  at the moment of the call. It is checked along the run, each call on the state the
  calls before it have left.
\<close>

fun destroys_live :: "('ty, 'v) call list \<Rightarrow> ('ty, 'v) state \<Rightarrow> bool" where
  "destroys_live [] s = True"
| "destroys_live (c # cs) s =
     ((case c of DestroyEntity_call h \<Rightarrow> live h (snd s) | _ \<Rightarrow> True)
      \<and> (case exec c s of
            Some (Inr (r, s')) \<Rightarrow> destroys_live cs s'
          | _ \<Rightarrow> True))"


text \<open>
  A client that destroys an entity twice: the second \<^verbatim>\<open>DestroyEntity\<close> goes through the
  stale handle of generation 0 while the slot holds generation 1 with a \<^verbatim>\<open>Transform\<close>.
  The following \<^verbatim>\<open>NewEntity\<close> returns the handle of generation 1 again.
\<close>

definition double_destroy :: "(string, nat) call list" where
  "double_destroy =
     [NewEntity_call, DestroyEntity_call (CreateEntityId 0 0), NewEntity_call,
      Assign_call ''Transform'' 4 7 (CreateEntityId 0 1),
      DestroyEntity_call (CreateEntityId 0 0), NewEntity_call]"

definition double_destroy_log :: "((string, nat) call \<times> ret) list" where
  "double_destroy_log =
     zip double_destroy
       [Handle (CreateEntityId 0 0), Unit, Handle (CreateEntityId 0 1), Pointer (Some (0, 0)),
        Unit, Handle (CreateEntityId 0 1)]"

definition emptied_world :: "nat World" where
  "emptied_world =
     \<lparr>m_entities = [\<lparr>m_id = CreateEntityId 0 1, m_mask = 0\<rparr>],
      m_freeEntities = [],
      m_componentPools = [Some \<lparr>m_elementSize = 4, m_data = [0 \<mapsto> 7]\<rparr>]\<rparr>"


section \<open>Encoding and decoding handles\<close>

lemma GetEntityIndex_Create: "GetEntityIndex (CreateEntityId i v) = i"
  unfolding GetEntityIndex_def CreateEntityId_def
  by (rule bit_word_eqI) (auto simp: bit_simps dest: bit_imp_le_length)

lemma GetEntityVersion_Create: "GetEntityVersion (CreateEntityId i v) = v"
  unfolding GetEntityVersion_def CreateEntityId_def
  by (rule bit_word_eqI) (auto simp: bit_simps)

lemma GetEntityIndex_ucast: "GetEntityIndex (ucast (x :: EntityIndex)) = 0"
  unfolding GetEntityIndex_def
  by (rule bit_word_eqI) (auto simp: bit_simps dest: bit_imp_le_length)

lemma Create_decode: "CreateEntityId (GetEntityIndex h) (GetEntityVersion h) = h"
  unfolding GetEntityIndex_def GetEntityVersion_def CreateEntityId_def
  by (rule bit_word_eqI) (auto simp: bit_simps)

lemma Create_inj: "(CreateEntityId i v = CreateEntityId j u) = (i = j \<and> v = u)"
  by (metis GetEntityIndex_Create GetEntityVersion_Create)

lemma drop_bit_ucast: "drop_bit 32 (h :: EntityID) = ucast (GetEntityIndex h)"
  unfolding GetEntityIndex_def
  by (rule bit_word_eqI) (auto simp: bit_simps dest: bit_imp_le_length)

lemma ucast_32_64_inj: "((ucast (a :: EntityIndex) :: EntityID) = ucast b) = (a = b)"
proof
  assume "(ucast a :: EntityID) = ucast b"
  then have "(ucast (ucast a :: EntityID) :: EntityIndex) = ucast (ucast b :: EntityID)"
    by simp
  then show "a = b"
    by (simp add: ucast_up_ucast_id is_up)
qed simp

lemma IsEntityValid_iff: "IsEntityValid h = (GetEntityIndex h \<noteq> - 1)"
  unfolding IsEntityValid_def drop_bit_ucast
  by (simp only: ucast_32_64_inj)

lemma idx0: "unat (GetEntityIndex (CreateEntityId 0 v)) = 0"
  by (simp add: GetEntityIndex_Create)

lemma idx1: "unat (GetEntityIndex (CreateEntityId 1 v)) = 1"
  by (simp add: GetEntityIndex_Create)

lemma GetEntityIndex_0: "GetEntityIndex 0 = 0"
  by (simp add: GetEntityIndex_def)

lemma GetEntityIndex_1: "GetEntityIndex 1 = 0"
  by (simp add: GetEntityIndex_def)

lemma IsEntityValid_Create: "IsEntityValid (CreateEntityId i v) = (i \<noteq> - 1)"
  by (simp add: IsEntityValid_iff GetEntityIndex_Create)

lemma version_succ: "v \<noteq> - 1 \<Longrightarrow> unat (v + 1 :: EntityVersion) = unat v + 1"
  by (metis add.commute add_eq_0_iff2 unatSuc Suc_eq_plus1)

section \<open>The operations of World, one call at a time\<close>

lemma EntityDesc_updates:
  "(d :: EntityDesc)\<lparr>m_id := a, m_mask := b\<rparr> = \<lparr>m_id = a, m_mask = b\<rparr>"
  by (cases d) simp

lemma two_entities_created:
  assumes "w1 = \<lparr>m_entities = [\<lparr>m_id = CreateEntityId 0 0, m_mask = 0\<rparr>],
                 m_freeEntities = [], m_componentPools = []\<rparr>"
  shows "NewEntity (World_new :: 'v World) = Inr (CreateEntityId 0 0, w1)
         \<and> NewEntity w1 = Inr (CreateEntityId 1 0, two_entities)"
  using assms by (simp add: NewEntity_def World_new_def two_entities_def Let_def)

lemma DestroyEntity_eq:
  "unat (GetEntityIndex h) < length (m_entities w) \<Longrightarrow>
   DestroyEntity h w =
     Inr (w\<lparr>m_entities := (m_entities w)[unat (GetEntityIndex h) :=
                \<lparr>m_id = CreateEntityId (- 1) (GetEntityVersion h + 1), m_mask = 0\<rparr>],
            m_freeEntities := m_freeEntities w @ [0]\<rparr>)"
  by (simp add: DestroyEntity_def Let_def GetEntityIndex_ucast EntityDesc_updates)

lemma Assign_stale:
  "unat (GetEntityIndex h) < length (m_entities w) \<Longrightarrow>
   m_id (m_entities w ! unat (GetEntityIndex h)) \<noteq> h \<Longrightarrow>
   Assign t sz v h (g, w) = Inr (None, snd (GetId t g), w)"
  by (simp add: Assign_def Let_def split: prod.splits)

lemma Remove_stale:
  "unat (GetEntityIndex h) < length (m_entities w) \<Longrightarrow>
   m_id (m_entities w ! unat (GetEntityIndex h)) \<noteq> h \<Longrightarrow>
   Remove t h (g, w) = Inr (g, w)"
  by (simp add: Remove_def Let_def)

lemma Remove_live:
  "unat (GetEntityIndex h) < length (m_entities w) \<Longrightarrow>
   m_id (m_entities w ! unat (GetEntityIndex h)) = h \<Longrightarrow>
   unat (fst (GetId t g)) < 64 \<Longrightarrow>
   Remove t h (g, w) =
     Inr (snd (GetId t g),
          w\<lparr>m_entities := (m_entities w)[unat (GetEntityIndex h) :=
               (m_entities w ! unat (GetEntityIndex h))
                 \<lparr>m_mask := unset_bit (unat (fst (GetId t g)))
                              (m_mask (m_entities w ! unat (GetEntityIndex h)))\<rparr>]\<rparr>)"
  by (cases "GetId t g") (simp add: Remove_def Let_def bitset_reset_def MAX_COMPONENTS_def)

lemma NewEntity_pop0:
  "m_entities w \<noteq> [] \<Longrightarrow> m_freeEntities w = fs @ [0] \<Longrightarrow>
   NewEntity w =
     Inr (CreateEntityId 0 (GetEntityVersion (m_id (m_entities w ! 0))),
          w\<lparr>m_freeEntities := fs,
            m_entities := (m_entities w)[0 := (m_entities w ! 0)
              \<lparr>m_id := CreateEntityId 0 (GetEntityVersion (m_id (m_entities w ! 0)))\<rparr>]\<rparr>)"
  by (simp add: NewEntity_def Let_def)

lemma index_zero: "(unat (i :: EntityIndex) = 0) = (i = 0)"
  by (simp add: unat_eq_0)

section \<open>Evaluating call sequences\<close>

text \<open>
  The rules that unfold the operations on a concrete state. Handles stay in the form
  \<open>CreateEntityId index generation\<close>.
\<close>

lemmas ev = returns_def fresh_def World_new_def Globals_new_def NewEntity_def DestroyEntity_def
  Let_def GetEntityIndex_Create GetEntityVersion_Create GetEntityIndex_ucast Create_inj
  GetEntityIndex_0 GetEntityIndex_1 Assign_def Remove_def Get_def Has_def GetId_def
  bitset_set_def bitset_reset_def bitset_test_def ComponentPool_Get_def ComponentPool_new_def
  vector_resize_def MAX_COMPONENTS_def MAX_ENTITIES_def set_bit_eq_or IsEntityValid_Create

lemmas evt = RosterView_traverse_def RosterView_new_def RosterView_at_def RosterView_begin_def
  RosterView_end_def deref_def not_equal_def ValidIndex_def World_All_def for_loop.simps
  advance.simps begin_scan.simps

lemma recycled_world_reached:
  "\<exists>log. run [NewEntity_call, DestroyEntity_call (CreateEntityId 0 0), NewEntity_call,
         Assign_call ''Transform'' 4 7 (CreateEntityId 0 1)] fresh
     = Some (Inr (log, (one_type, recycled_world)))"
  by (simp add: ev one_type_def recycled_world_def)

section \<open>Properties of single calls\<close>

text \<open>
  C6. For every handle whose index is inside the entity table but whose slot stores a
  different handle (destroyed or recycled since), \<^verbatim>\<open>Assign<T>\<close> returns the null pointer
  and leaves the world as it was: entity table, presence masks, free list and pool
  registry. Only the global identity of \<open>T\<close> may have been registered.
\<close>

theorem assign_stale_handle_is_null:
  assumes "stale h w"
  shows "Assign t sz v h (g, w) = Inr (None, snd (GetId t g), w)"
  using assms by (simp add: stale_def Assign_stale)

theorem assign_stale_handle_is_null_witness:
  "stale (CreateEntityId 1 7) (two_entities :: nat World)
   \<and> Assign ''Shape'' 1 (5 :: nat) (CreateEntityId 1 7) (Globals_new, two_entities)
       = Inr (None, \<lparr>s_componentCounter = 1, s_componentId = [''Shape'' \<mapsto> 0]\<rparr>, two_entities)"
proof -
  have s: "stale (CreateEntityId 1 7) (two_entities :: nat World)"
    by (simp add: stale_def idx1 two_entities_def Create_inj)
  from assign_stale_handle_is_null [OF s, of "''Shape''" 1 5 Globals_new] s
  show ?thesis by (simp add: GetId_def Globals_new_def)
qed

text \<open>
  C7. For every handle \<open>h\<close> that matches the handle stored in its slot, after
  \<^verbatim>\<open>DestroyEntity(h)\<close> that slot stores the handle made of the sentinel index and the
  generation of \<open>h\<close> plus one with an empty presence mask, and every other slot of the
  entity table is as before. The sum is the 32-bit one of the source: it is the next
  number unless the generation of \<open>h\<close> is \<open>2 ^ 32 - 1\<close>.
\<close>

theorem destroy_entity_rewrites_one_slot:
  assumes "live h w"
  shows "\<exists>w'. DestroyEntity h w = Inr w'
           \<and> m_entities w' = (m_entities w)[unat (GetEntityIndex h) :=
                \<lparr>m_id = CreateEntityId (- 1) (GetEntityVersion h + 1), m_mask = 0\<rparr>]
           \<and> GetEntityIndex (m_id (m_entities w' ! unat (GetEntityIndex h))) = - 1
           \<and> GetEntityVersion (m_id (m_entities w' ! unat (GetEntityIndex h)))
               = GetEntityVersion h + 1
           \<and> (GetEntityVersion h \<noteq> - 1 \<longrightarrow>
                 unat (GetEntityVersion (m_id (m_entities w' ! unat (GetEntityIndex h))))
                   = unat (GetEntityVersion h) + 1)
           \<and> \<not> IsEntityValid (m_id (m_entities w' ! unat (GetEntityIndex h)))
           \<and> m_mask (m_entities w' ! unat (GetEntityIndex h)) = 0
           \<and> length (m_entities w') = length (m_entities w)
           \<and> (\<forall>j < length (m_entities w).
                 j \<noteq> unat (GetEntityIndex h) \<longrightarrow> m_entities w' ! j = m_entities w ! j)"
  using assms
  by (simp add: live_def DestroyEntity_eq GetEntityIndex_Create GetEntityVersion_Create
                IsEntityValid_Create version_succ)

theorem destroy_entity_rewrites_one_slot_witness:
  "live (CreateEntityId 1 0) (two_entities :: nat World)
   \<and> GetEntityVersion (CreateEntityId 1 0) \<noteq> - 1
   \<and> (\<exists>w'. DestroyEntity (CreateEntityId 1 0) (two_entities :: nat World) = Inr w'
           \<and> m_entities w' = [\<lparr>m_id = CreateEntityId 0 0, m_mask = 0\<rparr>,
                                \<lparr>m_id = CreateEntityId (- 1) 1, m_mask = 0\<rparr>]
           \<and> unat (GetEntityVersion (m_id (m_entities w' ! 1))) = 1)"
proof -
  have l: "live (CreateEntityId 1 0) (two_entities :: nat World)"
    by (simp add: live_def idx1 two_entities_def)
  have v: "GetEntityVersion (CreateEntityId 1 0) \<noteq> - 1"
    by (simp add: GetEntityVersion_Create)
  from destroy_entity_rewrites_one_slot [OF l] l v show ?thesis
    by (auto simp: idx1 GetEntityVersion_Create two_entities_def)
qed

text \<open>
  C10. For every handle \<open>h\<close> whose index is inside the entity table, \<^verbatim>\<open>DestroyEntity(h)\<close>
  pushes slot index 0 on the free list whatever the index of \<open>h\<close> is. The next
  \<^verbatim>\<open>NewEntity\<close> pops that 0, leaving the free list as it was before the destruction,
  re-encodes slot 0 with index 0 and the generation the slot stores, and returns that
  handle. Slot 0 stores the destroyed handle's successor when \<open>h\<close> has index 0 and is
  untouched otherwise: then every handle that is live in slot 0 is what \<^verbatim>\<open>NewEntity\<close>
  returns, while its entity is still alive. Destroying the second of two entities is
  such a case.
\<close>

theorem destroy_entity_pushes_index_zero:
  assumes b: "unat (GetEntityIndex h) < length (m_entities w)"
  shows "(\<exists>w'. DestroyEntity h w = Inr w'
            \<and> m_freeEntities w' = m_freeEntities w @ [0]
            \<and> m_id (m_entities w' ! 0) =
                (if GetEntityIndex h = 0 then CreateEntityId (- 1) (GetEntityVersion h + 1)
                 else m_id (m_entities w ! 0))
            \<and> NewEntity w' =
                Inr (CreateEntityId 0 (GetEntityVersion (m_id (m_entities w' ! 0))),
                     w'\<lparr>m_freeEntities := m_freeEntities w,
                        m_entities := (m_entities w')[0 := (m_entities w' ! 0)
                          \<lparr>m_id := CreateEntityId 0
                                     (GetEntityVersion (m_id (m_entities w' ! 0)))\<rparr>]\<rparr>)
            \<and> (\<forall>h0. GetEntityIndex h \<noteq> 0 \<and> live h0 w \<and> GetEntityIndex h0 = 0 \<longrightarrow>
                   NewEntity w' = Inr (h0, w'\<lparr>m_freeEntities := m_freeEntities w\<rparr>)
                 \<and> live h0 w' \<and> IsEntityValid h0))
         \<and> (\<exists>(w0 :: 'v World) h0 w' h' w''.
               live h0 w0 \<and> GetEntityIndex h0 \<noteq> 0
             \<and> DestroyEntity h0 w0 = Inr w' \<and> NewEntity w' = Inr (h', w'')
             \<and> live h' w' \<and> IsEntityValid h')"
proof (rule conjI)
  let ?j = "unat (GetEntityIndex h)"
  let ?w' = "w\<lparr>m_entities := (m_entities w)[?j :=
                \<lparr>m_id = CreateEntityId (- 1) (GetEntityVersion h + 1), m_mask = 0\<rparr>],
            m_freeEntities := m_freeEntities w @ [0]\<rparr>"
  have d: "DestroyEntity h w = Inr ?w'"
    using b by (rule DestroyEntity_eq)
  have ne: "m_entities ?w' \<noteq> []"
    using b by auto
  have fr: "m_freeEntities ?w' = m_freeEntities w @ [0]" by simp
  have s0: "m_id (m_entities ?w' ! 0) =
                (if GetEntityIndex h = 0 then CreateEntityId (- 1) (GetEntityVersion h + 1)
                 else m_id (m_entities w ! 0))"
    using b by (auto simp: index_zero nth_list_update)
  have n: "NewEntity ?w' =
                Inr (CreateEntityId 0 (GetEntityVersion (m_id (m_entities ?w' ! 0))),
                     ?w'\<lparr>m_freeEntities := m_freeEntities w,
                        m_entities := (m_entities ?w')[0 := (m_entities ?w' ! 0)
                          \<lparr>m_id := CreateEntityId 0
                                     (GetEntityVersion (m_id (m_entities ?w' ! 0)))\<rparr>]\<rparr>)"
    using NewEntity_pop0 [OF ne fr] .
  have u: "NewEntity ?w' = Inr (h0, ?w'\<lparr>m_freeEntities := m_freeEntities w\<rparr>)
             \<and> live h0 ?w' \<and> IsEntityValid h0"
    if nz: "GetEntityIndex h \<noteq> 0" and l: "live h0 w" and z: "GetEntityIndex h0 = 0" for h0
  proof -
    from nz have j: "?j \<noteq> 0" by (simp add: index_zero)
    from l z have b0: "0 < length (m_entities w)" and i0: "m_id (m_entities w ! 0) = h0"
      by (simp_all add: live_def)
    from j have e0: "m_entities ?w' ! 0 = m_entities w ! 0" by simp
    have c: "CreateEntityId 0 (GetEntityVersion h0) = h0"
      using Create_decode [of h0] z by simp
    have r: "(m_entities w ! 0)\<lparr>m_id := h0\<rparr> = m_entities w ! 0"
      unfolding i0 [symmetric] by simp
    have "(m_entities ?w')[0 := (m_entities ?w' ! 0)\<lparr>m_id := h0\<rparr>]
            = (m_entities ?w')[0 := m_entities ?w' ! 0]"
      unfolding e0 r ..
    then have same: "(m_entities ?w')[0 := (m_entities ?w' ! 0)\<lparr>m_id := h0\<rparr>] = m_entities ?w'"
      by (simp only: list_update_id)
    have "NewEntity ?w' = Inr (h0, ?w'\<lparr>m_freeEntities := m_freeEntities w\<rparr>)"
      unfolding n e0 i0 c using same e0 i0 by simp
    moreover have "live h0 ?w'"
      using z b0 i0 j by (simp add: live_def)
    moreover have "IsEntityValid h0"
      using z by (simp add: IsEntityValid_iff)
    ultimately show ?thesis by simp
  qed
  from d fr s0 n u
  show "\<exists>w'. DestroyEntity h w = Inr w'
            \<and> m_freeEntities w' = m_freeEntities w @ [0]
            \<and> m_id (m_entities w' ! 0) =
                (if GetEntityIndex h = 0 then CreateEntityId (- 1) (GetEntityVersion h + 1)
                 else m_id (m_entities w ! 0))
            \<and> NewEntity w' =
                Inr (CreateEntityId 0 (GetEntityVersion (m_id (m_entities w' ! 0))),
                     w'\<lparr>m_freeEntities := m_freeEntities w,
                        m_entities := (m_entities w')[0 := (m_entities w' ! 0)
                          \<lparr>m_id := CreateEntityId 0
                                     (GetEntityVersion (m_id (m_entities w' ! 0)))\<rparr>]\<rparr>)
            \<and> (\<forall>h0. GetEntityIndex h \<noteq> 0 \<and> live h0 w \<and> GetEntityIndex h0 = 0 \<longrightarrow>
                   NewEntity w' = Inr (h0, w'\<lparr>m_freeEntities := m_freeEntities w\<rparr>)
                 \<and> live h0 w' \<and> IsEntityValid h0)"
    by (intro exI [of _ ?w'] conjI allI impI) blast+
next
  let ?h0 = "CreateEntityId 1 0"
  let ?w0 = "two_entities :: 'v World"
  let ?w' = "?w0\<lparr>m_entities := [\<lparr>m_id = CreateEntityId 0 0, m_mask = 0\<rparr>,
                                   \<lparr>m_id = CreateEntityId (- 1) 1, m_mask = 0\<rparr>],
               m_freeEntities := [0]\<rparr>"
  have l: "live ?h0 ?w0"
    by (simp add: live_def idx1 two_entities_def)
  have nz: "GetEntityIndex ?h0 \<noteq> 0"
    by (simp add: GetEntityIndex_Create)
  have d: "DestroyEntity ?h0 ?w0 = Inr ?w'"
    by (simp add: DestroyEntity_eq idx1 two_entities_def GetEntityVersion_Create)
  have n: "NewEntity ?w' = Inr (CreateEntityId 0 0, ?w'\<lparr>m_freeEntities := []\<rparr>)"
    by (simp add: NewEntity_def Let_def two_entities_def GetEntityVersion_Create)
  have l': "live (CreateEntityId 0 0) ?w'"
    by (simp add: live_def idx0 two_entities_def)
  have v: "IsEntityValid (CreateEntityId 0 0)"
    by (simp add: IsEntityValid_iff GetEntityIndex_Create)
  from l nz d n l' v
  show "\<exists>(w0 :: 'v World) h0 w' h' w''.
               live h0 w0 \<and> GetEntityIndex h0 \<noteq> 0
             \<and> DestroyEntity h0 w0 = Inr w' \<and> NewEntity w' = Inr (h', w'')
             \<and> live h' w' \<and> IsEntityValid h'"
    by blast
qed

theorem destroy_entity_pushes_index_zero_witness:
  "unat (GetEntityIndex (CreateEntityId 1 0)) < length (m_entities (two_entities :: nat World))
   \<and> GetEntityIndex (CreateEntityId 1 0) \<noteq> 0
   \<and> live (CreateEntityId 0 0) (two_entities :: nat World)
   \<and> GetEntityIndex (CreateEntityId 0 0) = 0
   \<and> (\<exists>w'. DestroyEntity (CreateEntityId 1 0) (two_entities :: nat World) = Inr w'
          \<and> m_freeEntities w' = [0]
          \<and> m_id (m_entities w' ! 0) = CreateEntityId 0 0
          \<and> NewEntity w' = Inr (CreateEntityId 0 0, w'\<lparr>m_freeEntities := []\<rparr>)
          \<and> live (CreateEntityId 0 0) w')"
proof -
  have b: "unat (GetEntityIndex (CreateEntityId 1 0)) < length (m_entities (two_entities :: nat World))"
    by (simp add: idx1 two_entities_def)
  have nz: "GetEntityIndex (CreateEntityId 1 0) \<noteq> 0"
    by (simp add: GetEntityIndex_Create)
  have l: "live (CreateEntityId 0 0) (two_entities :: nat World)"
    by (simp add: live_def idx0 two_entities_def)
  have z: "GetEntityIndex (CreateEntityId 0 0) = 0"
    by (simp add: GetEntityIndex_Create)
  have f: "m_freeEntities (two_entities :: nat World) = []"
    by (simp add: two_entities_def)
  have e: "m_id (m_entities (two_entities :: nat World) ! 0) = CreateEntityId 0 0"
    by (simp add: two_entities_def)
  from destroy_entity_pushes_index_zero [OF b] obtain w' where
    d: "DestroyEntity (CreateEntityId 1 0) (two_entities :: nat World) = Inr w'"
    and fr: "m_freeEntities w' = m_freeEntities (two_entities :: nat World) @ [0]"
    and s0: "m_id (m_entities w' ! 0) =
                (if GetEntityIndex (CreateEntityId 1 0) = 0
                 then CreateEntityId (- 1) (GetEntityVersion (CreateEntityId 1 0) + 1)
                 else m_id (m_entities (two_entities :: nat World) ! 0))"
    and u: "\<forall>h0. GetEntityIndex (CreateEntityId 1 0) \<noteq> 0 \<and> live h0 (two_entities :: nat World)
                 \<and> GetEntityIndex h0 = 0 \<longrightarrow>
              NewEntity w' = Inr (h0, w'\<lparr>m_freeEntities := m_freeEntities (two_entities :: nat World)\<rparr>)
            \<and> live h0 w' \<and> IsEntityValid h0"
    by blast
  from u nz l z have "NewEntity w' = Inr (CreateEntityId 0 0, w'\<lparr>m_freeEntities := []\<rparr>)"
    and "live (CreateEntityId 0 0) w'"
    by (simp_all add: f)
  with b nz l z d fr s0 show ?thesis
    by (auto simp: f e)
qed

text \<open>
  C5, as stated: \<^verbatim>\<open>Remove<T>(h)\<close> clears the mask bit of \<open>T\<close> at the slot addressed by the
  index of \<open>h\<close> without validating \<open>h\<close>, for stale handles too. The source validates: in
  the recycled world the destroyed handle of generation 0 addresses slot 0, whose mask
  holds bit 0 of \<^verbatim>\<open>Transform\<close>, and \<^verbatim>\<open>Remove<Transform>\<close> through it changes nothing.
\<close>

theorem remove_through_stale_handle_keeps_bit:
  "stale (CreateEntityId 0 0) recycled_world
   \<and> GetId ''Transform'' one_type = (0, one_type)
   \<and> bit (m_mask (m_entities recycled_world ! unat (GetEntityIndex (CreateEntityId 0 0)))) 0
   \<and> Remove ''Transform'' (CreateEntityId 0 0) (one_type, recycled_world)
        = Inr (one_type, recycled_world)"
  by (simp add: stale_def ev one_type_def recycled_world_def)

text \<open>
  C5, amended. For every handle \<open>h\<close> whose index is inside the entity table and every
  component type \<open>T\<close>: when \<open>h\<close> is stale, \<^verbatim>\<open>Remove<T>(h)\<close> leaves globals and world as
  they are, and \<^verbatim>\<open>Assign<T>(h, ...)\<close> returns null with the world unchanged; when \<open>h\<close> is
  the handle stored in its slot and the identity of \<open>T\<close> is below 64, \<^verbatim>\<open>Remove<T>(h)\<close>
  clears exactly the mask bit of that identity at that slot. \<^verbatim>\<open>Remove\<close> checks the
  freshness of the handle as \<^verbatim>\<open>Assign\<close> does.
\<close>

theorem remove_checks_freshness:
  assumes "unat (GetEntityIndex h) < length (m_entities w)"
  shows "(stale h w \<longrightarrow>
            Remove t h (g, w) = Inr (g, w)
          \<and> (\<exists>g'. Assign t sz v h (g, w) = Inr (None, g', w)))
       \<and> (live h w \<and> unat (fst (GetId t g)) < 64 \<longrightarrow>
            Remove t h (g, w) =
              Inr (snd (GetId t g),
                   w\<lparr>m_entities := (m_entities w)[unat (GetEntityIndex h) :=
                        (m_entities w ! unat (GetEntityIndex h))
                          \<lparr>m_mask := unset_bit (unat (fst (GetId t g)))
                                       (m_mask (m_entities w ! unat (GetEntityIndex h)))\<rparr>]\<rparr>)
          \<and> \<not> bit (unset_bit (unat (fst (GetId t g)))
                      (m_mask (m_entities w ! unat (GetEntityIndex h))))
                   (unat (fst (GetId t g))))"
  using assms
  by (simp add: stale_def live_def Remove_stale Remove_live Assign_stale bit_unset_bit_iff)

theorem remove_checks_freshness_witness:
  "unat (GetEntityIndex (CreateEntityId 0 1)) < length (m_entities recycled_world)
   \<and> live (CreateEntityId 0 1) recycled_world
   \<and> unat (fst (GetId ''Transform'' one_type)) < 64
   \<and> Remove ''Transform'' (CreateEntityId 0 1) (one_type, recycled_world)
       = Inr (one_type,
              recycled_world\<lparr>m_entities := [\<lparr>m_id = CreateEntityId 0 1, m_mask = 0\<rparr>]\<rparr>)
   \<and> stale (CreateEntityId 0 0) recycled_world
   \<and> Remove ''Transform'' (CreateEntityId 0 0) (one_type, recycled_world)
       = Inr (one_type, recycled_world)"
proof -
  have b: "unat (GetEntityIndex (CreateEntityId 0 1)) < length (m_entities recycled_world)"
    by (simp add: idx0 recycled_world_def)
  have b0: "unat (GetEntityIndex (CreateEntityId 0 0)) < length (m_entities recycled_world)"
    by (simp add: idx0 recycled_world_def)
  have l: "live (CreateEntityId 0 1) recycled_world"
    by (simp add: live_def idx0 recycled_world_def)
  have s: "stale (CreateEntityId 0 0) recycled_world"
    by (simp add: stale_def idx0 recycled_world_def Create_inj)
  have c: "GetId ''Transform'' one_type = (0, one_type)"
    by (simp add: GetId_def one_type_def)
  from remove_checks_freshness [OF b, of "''Transform''" one_type]
       remove_checks_freshness [OF b0, of "''Transform''" one_type] l s c b
  show ?thesis
    by (simp add: recycled_world_def idx0 unset_bit_eq_and_not EntityDesc_updates)
qed

section \<open>Where the source departs from its specification\<close>

text \<open>
  C2 says that \<^verbatim>\<open>DestroyEntity(h)\<close> followed at once by \<^verbatim>\<open>NewEntity()\<close> returns the index
  of \<open>h\<close> with its generation plus one. On a world of two entities, destroying the second
  (index 1, generation 0) and creating one returns index 0, generation 0: the handle of
  the first entity, which is still alive. Slot 1 is never handed out again.
\<close>

theorem recycling_returns_slot_zero:
  "returns (run [NewEntity_call, NewEntity_call, DestroyEntity_call (CreateEntityId 1 0),
                 NewEntity_call] (fresh :: (string, nat) state))
     = Some [Handle (CreateEntityId 0 0), Handle (CreateEntityId 1 0), Unit,
             Handle (CreateEntityId 0 0)]"
  by (simp add: ev)

text \<open>
  C3 says that after \<^verbatim>\<open>DestroyEntity(h)\<close> every \<^verbatim>\<open>Get<T>(h)\<close> and every
  \<^verbatim>\<open>Assign<T>(h, ...)\<close> returns null, also once the slot is in use again. \<^verbatim>\<open>Get\<close> tests the
  mask bit only: after the slot of the destroyed handle has been recycled and the new
  entity has received a \<^verbatim>\<open>Transform\<close>, \<^verbatim>\<open>Get<Transform>\<close> through the destroyed handle
  returns the pointer to the new entity's component, and \<^verbatim>\<open>Has\<close> answers true.
  \<^verbatim>\<open>Assign\<close> through the destroyed handle does return null.
\<close>

theorem get_through_destroyed_handle:
  "returns (run [NewEntity_call, DestroyEntity_call (CreateEntityId 0 0), NewEntity_call,
                 Assign_call ''Transform'' 4 (7 :: nat) (CreateEntityId 0 1),
                 Get_call ''Transform'' (CreateEntityId 0 0),
                 Has_call ''Transform'' (CreateEntityId 0 0),
                 Assign_call ''Transform'' 4 9 (CreateEntityId 0 0)] fresh)
     = Some [Handle (CreateEntityId 0 0), Unit, Handle (CreateEntityId 0 1),
             Pointer (Some (0, 0)), Pointer (Some (0, 0)), Flag True, Pointer None]"
  by (simp add: ev)

lemma set_each_keeps: "set_each cs m = Inr m' \<Longrightarrow> bit m k \<Longrightarrow> bit m' k"
proof (induction cs arbitrary: m)
  case Nil
  then show ?case by simp
next
  case (Cons c cs)
  from Cons.prems(1) obtain m1 where s: "bitset_set m c = Inr m1" and r: "set_each cs m1 = Inr m'"
    by (auto split: sum.splits)
  from s Cons.prems(2) have "bit m1 k"
    by (auto simp: bitset_set_def bit_set_bit_iff split: if_splits)
  with Cons.IH [OF r] show ?case by simp
qed

text \<open>Every view over at least one type asks for identity 0, whatever the types are.\<close>

lemma nonempty_view_demands_identity_zero:
  assumes "RosterView_new ts g = Inr (v, g')" and "ts \<noteq> []"
  shows "bit (m_componentMask v) 0 \<and> \<not> m_all v"
proof -
  obtain cs g1 where c: "GetIds ts g = (cs, g1)" by (cases "GetIds ts g")
  with assms obtain m where s: "set_each (0 # cs) 0 = Inr m"
    and v: "m_componentMask v = m" "\<not> m_all v"
    by (auto simp: RosterView_new_def split: sum.splits)
  from s obtain m1 where b: "bitset_set 0 0 = Inr m1" and r: "set_each cs m1 = Inr m"
    by (auto split: sum.splits)
  from b have "bit m1 0"
    by (auto simp: bitset_set_def bit_set_bit_iff MAX_COMPONENTS_def split: if_splits)
  with set_each_keeps [OF r] v show ?thesis by simp
qed

text \<open>
  C1 says that a view over a set of component types yields exactly the valid handles
  whose attached types include the set. The constructor also sets bit 0, the leading
  element of its array of identities, so a view over \<^verbatim>\<open>Shape\<close> (identity 1) asks for
  identity 0 as well: the second entity below has a \<^verbatim>\<open>Shape\<close> and no \<^verbatim>\<open>Transform\<close>, and the
  view over \<^verbatim>\<open>Shape\<close> yields nothing. The view over no type yields both entities.
\<close>

theorem view_over_shape_misses_entity_with_shape:
  "returns (run [NewEntity_call, Assign_call ''Transform'' 4 (7 :: nat) (CreateEntityId 0 0),
                 NewEntity_call, Assign_call ''Shape'' 1 1 (CreateEntityId 1 0),
                 Has_call ''Shape'' (CreateEntityId 1 0),
                 Traverse_call [''Shape''],
                 Traverse_call []] fresh)
     = Some [Handle (CreateEntityId 0 0), Pointer (Some (0, 0)),
             Handle (CreateEntityId 1 0), Pointer (Some (1, 1)),
             Flag True,
             Visited [],
             Visited [(0, CreateEntityId 0 0), (1, CreateEntityId 1 0)]]"
  by (simp add: ev evt)

section \<open>Traversals\<close>

lemma next_from_bounds: "k \<le> n \<Longrightarrow> k \<le> next_from q n k \<and> next_from q n k \<le> n"
proof (induction q n k rule: next_from.induct)
  case (1 q n k)
  show ?case
  proof (cases "k < n \<and> \<not> q k")
    case True
    with 1 show ?thesis by (subst (1 2) next_from.simps) auto
  next
    case False
    with 1 show ?thesis by (subst (1 2) next_from.simps) auto
  qed
qed

lemma next_from_stops: "k \<le> n \<Longrightarrow> next_from q n k < n \<Longrightarrow> q (next_from q n k)"
proof (induction q n k rule: next_from.induct)
  case (1 q n k)
  show ?case
  proof (cases "k < n \<and> \<not> q k")
    case True
    with 1 show ?thesis by (subst next_from.simps) (auto simp: next_from.simps [of q n k])
  next
    case False
    with 1 show ?thesis by (subst next_from.simps) (auto simp: next_from.simps [of q n k])
  qed
qed

lemma filter_next_from: "k \<le> n \<Longrightarrow> filter q [k..<n] = filter q [next_from q n k..<n]"
proof (induction q n k rule: next_from.induct)
  case (1 q n k)
  show ?case
  proof (cases "k < n \<and> \<not> q k")
    case True
    then have "filter q [k..<n] = filter q [Suc k..<n]"
      by (simp add: upt_conv_Cons)
    also have "\<dots> = filter q [next_from q n (Suc k)..<n]"
      using 1 True by simp
    also have "next_from q n (Suc k) = next_from q n k"
      using True by (subst (2) next_from.simps) simp
    finally show ?thesis .
  next
    case False
    then have "next_from q n k = k"
      by (subst next_from.simps) auto
    then show ?thesis by simp
  qed
qed

lemma begin_scan_Inr: "begin_scan w cmask k0 = Inr k \<Longrightarrow>
   k = next_from (qualifies w False cmask) (length (World_All w)) k0"
proof (induction w cmask k0 rule: begin_scan.induct)
  case (1 w cmask firstIndex)
  let ?q = "qualifies w False cmask"
  show ?case
  proof (cases "firstIndex < length (World_All w) \<and> \<not> ?q firstIndex")
    case True
    then have c: "firstIndex < length (World_All w)
         \<and> (cmask \<noteq> (cmask AND m_mask (World_All w ! firstIndex))
              \<or> \<not> IsEntityValid (m_id (World_All w ! firstIndex)))"
      by (auto simp: qualifies_def)
    with "1.prems" have ne: "firstIndex \<noteq> 2 ^ 31 - 1" and r: "begin_scan w cmask (firstIndex + 1) = Inr k"
      by (auto simp: begin_scan.simps [of w cmask firstIndex] split: if_splits)
    from "1.IH" [OF c ne r] have "k = next_from ?q (length (World_All w)) (Suc firstIndex)" by simp
    also have "\<dots> = next_from ?q (length (World_All w)) firstIndex"
      using True by (subst (2) next_from.simps) simp
    finally show ?thesis .
  next
    case False
    then have c: "\<not> (firstIndex < length (World_All w)
         \<and> (cmask \<noteq> (cmask AND m_mask (World_All w ! firstIndex))
              \<or> \<not> IsEntityValid (m_id (World_All w ! firstIndex))))"
      by (auto simp: qualifies_def)
    with "1.prems" have "k = firstIndex"
      by (auto simp: begin_scan.simps [of w cmask firstIndex] split: if_splits)
    moreover from False have "next_from ?q (length (World_All w)) firstIndex = firstIndex"
      by (subst next_from.simps) auto
    ultimately show ?thesis by simp
  qed
qed

lemma begin_scan_no_overflow:
  "length (World_All w) < 2 ^ 31 \<Longrightarrow> \<exists>k. begin_scan w cmask k0 = Inr k"
proof (induction w cmask k0 rule: begin_scan.induct)
  case (1 w cmask firstIndex)
  show ?case
  proof (cases "firstIndex < length (World_All w)
         \<and> (cmask \<noteq> (cmask AND m_mask (World_All w ! firstIndex))
              \<or> \<not> IsEntityValid (m_id (World_All w ! firstIndex)))")
    case True
    with "1.prems" have ne: "firstIndex \<noteq> 2 ^ 31 - 1" by auto
    from "1.IH" [OF True ne "1.prems"] obtain k where "begin_scan w cmask (firstIndex + 1) = Inr k" ..
    with True ne show ?thesis
      by (subst begin_scan.simps) auto
  next
    case False
    then show ?thesis by (subst begin_scan.simps) auto
  qed
qed


lemma next_from_self: "next_from q n n = n"
  by (subst next_from.simps) simp

lemma unat_index: "k < 2 ^ 32 \<Longrightarrow> unat (of_nat k :: EntityIndex) = k"
  by (simp add: unat_of_nat)

lemma ValidIndex_at:
  "k < 2 ^ 32 \<Longrightarrow>
   ValidIndex w (v\<lparr>m_index := of_nat k\<rparr>) = qualifies w (m_all v) (m_componentMask v) k"
  by (simp add: ValidIndex_def qualifies_def unat_index)

lemma advance_eq:
  assumes n: "length (World_All w) < 2 ^ 32"
  shows "k < length (World_All w) \<Longrightarrow>
         advance w (v\<lparr>m_index := of_nat k\<rparr>) =
           Some (v\<lparr>m_index := of_nat (next_from (qualifies w (m_all v) (m_componentMask v))
                                              (length (World_All w)) (Suc k))\<rparr>)"
proof (induction "length (World_All w) - Suc k" arbitrary: k)
  case 0
  then have k: "Suc k = length (World_All w)" by simp
  have e: "(of_nat k + 1 :: EntityIndex) = of_nat (Suc k)" by simp
  have u: "unat (of_nat (Suc k) :: EntityIndex) = Suc k"
    using n k by (simp only: unat_index)
  have nf: "next_from (qualifies w (m_all v) (m_componentMask v)) (length (World_All w)) (Suc k) = Suc k"
    using k by (subst next_from.simps) simp
  show ?case
    by (subst advance.simps) (simp add: Let_def e u k [symmetric] next_from_self del: of_nat_Suc)
next
  case (Suc d)
  let ?q = "qualifies w (m_all v) (m_componentMask v)"
  let ?n = "length (World_All w)"
  from Suc have k: "Suc k < ?n" by simp
  then have lt: "Suc k < 2 ^ 32" using n by simp
  have u: "unat (of_nat (Suc k) :: EntityIndex) = Suc k"
    using lt by (simp only: unat_index)
  have e: "(of_nat k + 1 :: EntityIndex) = of_nat (Suc k)" by simp
  show ?case
  proof (cases "?q (Suc k)")
    case True
    then have nf: "next_from ?q ?n (Suc k) = Suc k"
      by (subst next_from.simps) simp
    have "ValidIndex w (v\<lparr>m_index := of_nat (Suc k)\<rparr>)"
      using True lt by (simp add: ValidIndex_at del: of_nat_Suc)
    then show ?thesis
      by (subst advance.simps) (simp add: Let_def nf e u del: of_nat_Suc)
  next
    case False
    then have nf: "next_from ?q ?n (Suc k) = next_from ?q ?n (Suc (Suc k))"
      using k by (subst next_from.simps) simp
    have nv: "\<not> ValidIndex w (v\<lparr>m_index := of_nat (Suc k)\<rparr>)"
      using False lt by (simp add: ValidIndex_at del: of_nat_Suc)
    have d: "d = ?n - Suc (Suc k)" using Suc by simp
    have ih: "advance w (v\<lparr>m_index := of_nat (Suc k)\<rparr>) =
           Some (v\<lparr>m_index := of_nat (next_from ?q ?n (Suc (Suc k)))\<rparr>)"
      using Suc.hyps(1) [OF d k] .
    have step: "advance w (v\<lparr>m_index := of_nat k\<rparr>) = advance w (v\<lparr>m_index := of_nat (Suc k)\<rparr>)"
      using nv k by (subst advance.simps) (simp add: Let_def e u del: of_nat_Suc)
    show ?thesis
      by (simp only: step ih nf)
  qed
qed


lemma for_loop_eq:
  assumes n: "length (World_All w) < 2 ^ 32"
  shows "k \<le> length (World_All w) \<Longrightarrow>
         (k < length (World_All w) \<longrightarrow> qualifies w (m_all v) (m_componentMask v) k) \<Longrightarrow>
         for_loop w (v\<lparr>m_index := of_nat k\<rparr>) (v\<lparr>m_index := of_nat (length (World_All w))\<rparr>) =
           Some (Inr (map (\<lambda>i. (of_nat i, m_id (World_All w ! i)))
                          (filter (qualifies w (m_all v) (m_componentMask v))
                                  [k..<length (World_All w)])))"
proof (induction "length (World_All w) - k" arbitrary: k rule: less_induct)
  case less
  let ?q = "qualifies w (m_all v) (m_componentMask v)"
  let ?n = "length (World_All w)"
  let ?f = "\<lambda>i. (of_nat i :: EntityIndex, m_id (World_All w ! i))"
  have un: "unat (of_nat ?n :: EntityIndex) = ?n"
    using n by (simp only: unat_index)
  show ?case
  proof (cases "k = ?n")
    case True
    then show ?thesis
      by (subst for_loop.simps) (simp add: not_equal_def un)
  next
    case False
    with less.prems have k: "k < ?n" and qk: "?q k" by auto
    then have lt: "k < 2 ^ 32" using n by simp
    have uk: "unat (of_nat k :: EntityIndex) = k"
      using lt by (simp only: unat_index)
    have neq: "(of_nat k :: EntityIndex) \<noteq> of_nat ?n"
      using uk un k by (metis nat_neq_iff)
    have ne: "not_equal w (v\<lparr>m_index := of_nat k\<rparr>) (v\<lparr>m_index := of_nat ?n\<rparr>)"
      using neq uk k by (simp add: not_equal_def)
    have de: "deref w (v\<lparr>m_index := of_nat k\<rparr>) = Inr (m_id (World_All w ! k))"
      using uk k by (simp add: deref_def)
    let ?k' = "next_from ?q ?n (Suc k)"
    have b: "Suc k \<le> ?k' \<and> ?k' \<le> ?n"
      using k by (intro next_from_bounds) simp
    have st: "?k' < ?n \<longrightarrow> ?q ?k'"
      using k next_from_stops [of "Suc k" ?n ?q] by auto
    have ad: "advance w (v\<lparr>m_index := of_nat k\<rparr>) = Some (v\<lparr>m_index := of_nat ?k'\<rparr>)"
      using advance_eq [OF n k] .
    have ih: "for_loop w (v\<lparr>m_index := of_nat ?k'\<rparr>) (v\<lparr>m_index := of_nat ?n\<rparr>) =
           Some (Inr (map ?f (filter ?q [?k'..<?n])))"
      using b k st by (intro less.hyps) auto
    have fl: "filter ?q [k..<?n] = k # filter ?q [?k'..<?n]"
    proof -
      have "filter ?q [k..<?n] = k # filter ?q [Suc k..<?n]"
        using k qk by (simp add: upt_conv_Cons)
      also have "filter ?q [Suc k..<?n] = filter ?q [?k'..<?n]"
        using k by (intro filter_next_from) simp
      finally show ?thesis .
    qed
    show ?thesis
      by (subst for_loop.simps) (simp add: ne de ad ih fl)
  qed
qed


lemma GetId_registered: "s_componentId g t = Some c \<Longrightarrow> GetId t g = (c, g)"
  by (simp add: GetId_def)

lemma GetId_after:
  "GetId t g = (c, g1) \<Longrightarrow>
   s_componentId g1 t = Some c
   \<and> (\<forall>t'. s_componentId g t' \<noteq> None \<longrightarrow> s_componentId g1 t' = s_componentId g t')"
  by (auto simp: GetId_def split: option.splits)

lemma GetIds_after:
  "GetIds ts g = (cs, g1) \<Longrightarrow>
   (\<forall>t'. s_componentId g t' \<noteq> None \<longrightarrow> s_componentId g1 t' = s_componentId g t')
   \<and> cs = map (\<lambda>t. the (s_componentId g1 t)) ts
   \<and> (\<forall>t \<in> set ts. s_componentId g1 t \<noteq> None)"
proof (induction ts arbitrary: g cs g1)
  case Nil
  then show ?case by simp
next
  case (Cons t ts)
  obtain c g' where h: "GetId t g = (c, g')" by (cases "GetId t g")
  obtain cs' g'' where r: "GetIds ts g' = (cs', g'')" by (cases "GetIds ts g'")
  from Cons.prems h r have e: "cs = c # cs'" "g1 = g''" by simp_all
  from GetId_after [OF h] have a: "s_componentId g' t = Some c"
    and k: "\<forall>t'. s_componentId g t' \<noteq> None \<longrightarrow> s_componentId g' t' = s_componentId g t'" by simp_all
  from Cons.IH [OF r]
  have k': "\<forall>t'. s_componentId g' t' \<noteq> None \<longrightarrow> s_componentId g'' t' = s_componentId g' t'"
    and m: "cs' = map (\<lambda>t. the (s_componentId g'' t)) ts"
    and d: "\<forall>t \<in> set ts. s_componentId g'' t \<noteq> None" by simp_all
  from a k' have a': "s_componentId g'' t = Some c" by simp
  from k k' have kk: "\<forall>t'. s_componentId g t' \<noteq> None \<longrightarrow> s_componentId g'' t' = s_componentId g t'"
    by metis
  from e a' m d kk show ?case by simp
qed

lemma GetIds_registered:
  "\<forall>t \<in> set ts. s_componentId g t \<noteq> None \<Longrightarrow>
   GetIds ts g = (map (\<lambda>t. the (s_componentId g t)) ts, g)"
  by (induction ts) (auto simp: GetId_registered)

lemma GetIds_stable: "GetIds ts g = (cs, g1) \<Longrightarrow> GetIds ts g1 = (cs, g1)"
  using GetIds_after [of ts g cs g1] GetIds_registered [of ts g1] by simp

lemma RosterView_new_stable:
  "RosterView_new ts g = Inr (v, g1) \<Longrightarrow> RosterView_new ts g1 = Inr (v, g1)"
proof (cases "length ts = 0")
  case True
  assume "RosterView_new ts g = Inr (v, g1)"
  with True show ?thesis by (simp add: RosterView_new_def)
next
  case False
  assume a: "RosterView_new ts g = Inr (v, g1)"
  obtain cs g' where h: "GetIds ts g = (cs, g')" by (cases "GetIds ts g")
  from a False h have "g' = g1"
    by (auto simp: RosterView_new_def split: sum.splits)
  with h have "GetIds ts g1 = (cs, g1)" "GetIds ts g = (cs, g1)"
    by (simp_all add: GetIds_stable)
  with a False show ?thesis
    by (simp add: RosterView_new_def)
qed

lemma RosterView_new_shape:
  "RosterView_new ts g = Inr (v, g1) \<Longrightarrow>
   m_index v = 0 \<and> m_all v = (ts = []) \<and> (m_all v \<longrightarrow> m_componentMask v = 0)"
  by (auto simp: RosterView_new_def split: if_splits prod.splits sum.splits)

lemma qualifies_all:
  "(a \<longrightarrow> cmask = 0) \<Longrightarrow> qualifies w False cmask = qualifies w a cmask"
  by (auto simp: qualifies_def fun_eq_iff)

lemma traverse_unfold:
  assumes "RosterView_new ts g = Inr (v, g1)"
  shows "RosterView_traverse ts (g, w) =
     (case begin_scan w (m_componentMask v) 0 of
        Inl e \<Rightarrow> Some (Inl e)
      | Inr k \<Rightarrow>
          (case for_loop w (v\<lparr>m_index := of_nat k\<rparr>)
                           (v\<lparr>m_index := of_nat (length (World_All w))\<rparr>) of
             None \<Rightarrow> None
           | Some (Inl e) \<Rightarrow> Some (Inl e)
           | Some (Inr visited) \<Rightarrow> Some (Inr (visited, g1))))"
  using assms RosterView_new_stable [OF assms]
  by (simp add: RosterView_traverse_def RosterView_begin_def RosterView_end_def RosterView_at_def
           split: sum.splits)

lemma traverse_fault:
  "RosterView_new ts g = Inl e \<Longrightarrow> RosterView_traverse ts (g, w) = Some (Inl e)"
  by (simp add: RosterView_traverse_def)

lemma traverse_result:
  assumes n: "length (World_All w) < 2 ^ 32"
    and v: "RosterView_new ts g = Inr (v, g1)"
    and b: "begin_scan w (m_componentMask v) 0 = Inr k"
  shows "RosterView_traverse ts (g, w) =
           Some (Inr (visited_slots w (m_all v) (m_componentMask v), g1))"
proof -
  let ?q = "qualifies w (m_all v) (m_componentMask v)"
  let ?n = "length (World_All w)"
  have q: "qualifies w False (m_componentMask v) = ?q"
    using RosterView_new_shape [OF v] by (intro qualifies_all) simp
  have k: "k = next_from ?q ?n 0"
    using begin_scan_Inr [OF b] q by simp
  have kb: "k \<le> ?n"
    using next_from_bounds [of 0 ?n ?q] k by simp
  have ks: "k < ?n \<longrightarrow> ?q k"
    using next_from_stops [of 0 ?n ?q] k by simp
  have fl: "filter ?q [k..<?n] = filter ?q [0..<?n]"
    using filter_next_from [of 0 ?n ?q] k by simp
  show ?thesis
    by (simp add: traverse_unfold [OF v] b for_loop_eq [OF n kb ks] fl visited_slots_def)
qed


lemma traverse_terminates:
  assumes n: "length (m_entities w) < 2 ^ 32"
  shows "\<exists>r. RosterView_traverse ts (g, w) = Some r"
proof (cases "RosterView_new ts g")
  case (Inl e)
  then show ?thesis by (simp add: traverse_fault)
next
  case (Inr p)
  then obtain v g1 where v: "RosterView_new ts g = Inr (v, g1)" by (cases p) simp
  show ?thesis
  proof (cases "begin_scan w (m_componentMask v) 0")
    case (Inl e)
    then show ?thesis by (simp add: traverse_unfold [OF v])
  next
    case (Inr k)
    from n have "length (World_All w) < 2 ^ 32" by (simp add: World_All_def)
    from traverse_result [OF this v Inr] show ?thesis by simp
  qed
qed

lemma traverse_Inr:
  assumes n: "length (m_entities w) < 2 ^ 32"
    and t: "RosterView_traverse ts (g, w) = Some (Inr (visited, g'))"
  shows "\<exists>v. RosterView_new ts g = Inr (v, g')
            \<and> visited = visited_slots w (m_all v) (m_componentMask v)"
proof (cases "RosterView_new ts g")
  case (Inl e)
  with t show ?thesis by (simp add: traverse_fault)
next
  case (Inr p)
  then obtain v g1 where v: "RosterView_new ts g = Inr (v, g1)" by (cases p) simp
  show ?thesis
  proof (cases "begin_scan w (m_componentMask v) 0")
    case (Inl e)
    with t show ?thesis by (simp add: traverse_unfold [OF v])
  next
    case (Inr k)
    from n have "length (World_All w) < 2 ^ 32" by (simp add: World_All_def)
    from traverse_result [OF this v Inr] t v show ?thesis by simp
  qed
qed

lemma traverse_again:
  assumes t: "RosterView_traverse ts (g, w) = Some (Inr (visited, g'))"
  shows "RosterView_traverse ts (g', w) = Some (Inr (visited, g'))"
proof (cases "RosterView_new ts g")
  case (Inl e)
  with t show ?thesis by (simp add: traverse_fault)
next
  case (Inr p)
  then obtain v g1 where v: "RosterView_new ts g = Inr (v, g1)" by (cases p) simp
  from t have g: "g' = g1"
    by (auto simp: traverse_unfold [OF v] split: sum.splits option.splits)
  from RosterView_new_stable [OF v] have v': "RosterView_new ts g1 = Inr (v, g1)" .
  from t show ?thesis
    unfolding g traverse_unfold [OF v] traverse_unfold [OF v'] .
qed

lemma traverse_no_throw:
  assumes n: "length (m_entities w) < 2 ^ 31"
    and v: "RosterView_new ts g = Inr (v, g1)"
  shows "\<exists>visited. RosterView_traverse ts (g, w) = Some (Inr (visited, g1))"
proof -
  from n have n31: "length (World_All w) < 2 ^ 31" by (simp add: World_All_def)
  then have n32: "length (World_All w) < 2 ^ 32" by simp
  from begin_scan_no_overflow [OF n31]
  obtain k where "begin_scan w (m_componentMask v) 0 = Inr k" by blast
  from traverse_result [OF n32 v this] show ?thesis by simp
qed

lemma visited_slots_sorted:
  assumes n: "length (m_entities w) < 2 ^ 32"
  shows "sorted_wrt (<) (map (\<lambda>p. unat (fst p)) (visited_slots w a cmask))"
proof -
  let ?xs = "filter (qualifies w a cmask) [0..<length (World_All w)]"
  have "map (\<lambda>p. unat (fst p)) (visited_slots w a cmask)
          = map (\<lambda>i. unat (of_nat i :: EntityIndex)) ?xs"
    by (simp add: visited_slots_def comp_def)
  also have "\<dots> = map (\<lambda>i. i) ?xs"
    using n by (intro map_cong) (auto simp: World_All_def unat_index)
  finally have "map (\<lambda>p. unat (fst p)) (visited_slots w a cmask) = ?xs" by simp
  moreover have "sorted_wrt (<) ?xs"
    by (intro sorted_wrt_filter) simp
  ultimately show ?thesis by simp
qed

lemma visited_slots_member:
  assumes n: "length (m_entities w) < 2 ^ 32"
    and m: "(i, h) \<in> set (visited_slots w a cmask)"
  shows "unat i < length (m_entities w) \<and> h = m_id (m_entities w ! unat i)
         \<and> IsEntityValid h"
  using n m by (auto simp: visited_slots_def World_All_def unat_index qualifies_def)

lemma second_destroyed_reached:
  "\<exists>log. run [NewEntity_call, Assign_call ''Transform'' 4 1 (CreateEntityId 0 0),
               NewEntity_call, Assign_call ''Transform'' 4 2 (CreateEntityId 1 0),
               NewEntity_call, Assign_call ''Transform'' 4 3 (CreateEntityId 2 0),
               DestroyEntity_call (CreateEntityId 1 0)] fresh
     = Some (Inr (log, (one_type, second_destroyed)))"
  by (simp add: ev one_type_def second_destroyed_def EntityDesc_updates)

lemma traverse_second_destroyed:
  "RosterView_traverse [''Transform''] (one_type, second_destroyed)
     = Some (Inr ([(0, CreateEntityId 0 0), (2, CreateEntityId 2 0)], one_type))"
  by (simp add: ev evt one_type_def second_destroyed_def)

lemma traverse_registers_shape:
  "RosterView_traverse [''Shape''] (one_type, second_destroyed)
     = Some (Inr ([], \<lparr>s_componentCounter = 2,
                        s_componentId = [''Transform'' \<mapsto> 0, ''Shape'' \<mapsto> 1]\<rparr>))"
  by (simp add: ev evt one_type_def second_destroyed_def)

text \<open>
  C8. Two separate views over the same component types, each traversed in full on the
  same world with no call in between, yield the same sequence. The first construction
  may register identities for the types; the second view is built on the globals the
  first one left. Whenever the first traversal returns a sequence, the second returns
  the same one; and on a table of fewer than \<open>2 ^ 31\<close> slots the first does return a
  sequence as soon as the constructor does not throw.
\<close>

theorem repeated_traversal_same_sequence:
  "(\<forall>visited g'. RosterView_traverse ts (g, w) = Some (Inr (visited, g')) \<longrightarrow>
        RosterView_traverse ts (g', w) = Some (Inr (visited, g')))
   \<and> (length (m_entities w) < 2 ^ 31 \<longrightarrow>
        (\<forall>v g1. RosterView_new ts g = Inr (v, g1) \<longrightarrow>
           (\<exists>visited. RosterView_traverse ts (g, w) = Some (Inr (visited, g1)))))"
  using traverse_again traverse_no_throw by blast

theorem repeated_traversal_same_sequence_witness:
  "length (m_entities second_destroyed) < 2 ^ 31
   \<and> RosterView_traverse [''Transform''] (one_type, second_destroyed)
       = Some (Inr ([(0, CreateEntityId 0 0), (2, CreateEntityId 2 0)], one_type))
   \<and> RosterView_traverse [''Shape''] (one_type, second_destroyed)
       = Some (Inr ([], \<lparr>s_componentCounter = 2,
                          s_componentId = [''Transform'' \<mapsto> 0, ''Shape'' \<mapsto> 1]\<rparr>))
   \<and> RosterView_traverse [''Shape'']
         (\<lparr>s_componentCounter = 2, s_componentId = [''Transform'' \<mapsto> 0, ''Shape'' \<mapsto> 1]\<rparr>,
          second_destroyed)
       = Some (Inr ([], \<lparr>s_componentCounter = 2,
                          s_componentId = [''Transform'' \<mapsto> 0, ''Shape'' \<mapsto> 1]\<rparr>))"
proof -
  have n: "length (m_entities second_destroyed) < 2 ^ 31"
    by (simp add: second_destroyed_def)
  from repeated_traversal_same_sequence [of "[''Shape'']" one_type second_destroyed]
       traverse_registers_shape
  have "RosterView_traverse [''Shape'']
         (\<lparr>s_componentCounter = 2, s_componentId = [''Transform'' \<mapsto> 0, ''Shape'' \<mapsto> 1]\<rparr>,
          second_destroyed)
       = Some (Inr ([], \<lparr>s_componentCounter = 2,
                          s_componentId = [''Transform'' \<mapsto> 0, ''Shape'' \<mapsto> 1]\<rparr>))"
    by blast
  with n traverse_second_destroyed traverse_registers_shape show ?thesis
    by simp
qed

text \<open>
  C9. On a table of fewer than \<open>2 ^ 32\<close> slots (the range of the 32-bit index) every
  traversal ends, the positions it yields are strictly ascending slot indices, each
  yielded handle is the one stored in the entity table at its position, and
  dereferencing an iterator at any position inside the table gives the handle stored
  there.
\<close>

theorem traversal_ascending:
  assumes "length (m_entities w) < 2 ^ 32"
  shows "(\<exists>r. RosterView_traverse ts (g, w) = Some r)
       \<and> (\<forall>visited g'. RosterView_traverse ts (g, w) = Some (Inr (visited, g')) \<longrightarrow>
            sorted_wrt (<) (map (\<lambda>p. unat (fst p)) visited)
          \<and> (\<forall>(i, h) \<in> set visited.
                unat i < length (m_entities w) \<and> h = m_id (m_entities w ! unat i)))
       \<and> (\<forall>it. unat (m_index it) < length (m_entities w) \<longrightarrow>
            deref w it = Inr (m_id (m_entities w ! unat (m_index it))))"
proof (intro conjI allI impI)
  show "\<exists>r. RosterView_traverse ts (g, w) = Some r"
    using assms by (rule traverse_terminates)
next
  fix visited g'
  assume "RosterView_traverse ts (g, w) = Some (Inr (visited, g'))"
  from traverse_Inr [OF assms this] obtain v :: RosterView where
    vs: "visited = visited_slots w (m_all v) (m_componentMask v)" by blast
  show "sorted_wrt (<) (map (\<lambda>p. unat (fst p)) visited)"
    unfolding vs using assms by (rule visited_slots_sorted)
  show "\<forall>(i, h) \<in> set visited.
          unat i < length (m_entities w) \<and> h = m_id (m_entities w ! unat i)"
    unfolding vs using visited_slots_member [OF assms] by blast
next
  fix it :: RosterView
  assume "unat (m_index it) < length (m_entities w)"
  then show "deref w it = Inr (m_id (m_entities w ! unat (m_index it)))"
    by (simp add: deref_def World_All_def)
qed

theorem traversal_ascending_witness:
  "length (m_entities second_destroyed) < 2 ^ 32
   \<and> RosterView_traverse [''Transform''] (one_type, second_destroyed)
       = Some (Inr ([(0, CreateEntityId 0 0), (2, CreateEntityId 2 0)], one_type))
   \<and> sorted_wrt (<) (map (\<lambda>p. unat (fst p))
        [(0 :: EntityIndex, CreateEntityId 0 0), (2, CreateEntityId 2 0)])
   \<and> unat (0 :: EntityIndex) < length (m_entities second_destroyed)
   \<and> CreateEntityId 0 0 = m_id (m_entities second_destroyed ! unat (0 :: EntityIndex))
   \<and> unat (2 :: EntityIndex) < length (m_entities second_destroyed)
   \<and> CreateEntityId 2 0 = m_id (m_entities second_destroyed ! unat (2 :: EntityIndex))"
proof -
  have n: "length (m_entities second_destroyed) < 2 ^ 32"
    by (simp add: second_destroyed_def)
  from traversal_ascending [OF n, of "[''Transform'']" one_type] traverse_second_destroyed n
  show ?thesis by auto
qed

section \<open>Presence of components along a history\<close>

subsection \<open>The registry of identities\<close>

lemma GetId_dom: "dom (s_componentId (snd (GetId t g))) = insert t (dom (s_componentId g))"
  by (auto simp: GetId_def split: option.splits)

lemma GetId_keeps: "s_componentId g t' = Some c \<Longrightarrow> s_componentId (snd (GetId t g)) t' = Some c"
  by (auto simp: GetId_def split: option.splits)

lemma GetId_fst: "s_componentId (snd (GetId t g)) t = Some (fst (GetId t g))"
  by (auto simp: GetId_def split: option.splits)

lemma GetId_new:
  "s_componentId g t' = None \<Longrightarrow> s_componentId (snd (GetId t g)) t' = Some c \<Longrightarrow>
   t' = t \<and> c = s_componentCounter g"
  by (auto simp: GetId_def split: option.splits if_splits)

lemma GetId_registry_ok:
  assumes r: "registry_ok g" and b: "card (dom (s_componentId (snd (GetId t g)))) < 2 ^ 64"
  shows "registry_ok (snd (GetId t g))
         \<and> unat (s_componentCounter g) \<le> unat (s_componentCounter (snd (GetId t g)))"
proof (cases "s_componentId g t")
  case (Some c)
  then have "GetId t g = (c, g)" by (simp add: GetId_def)
  with r show ?thesis by simp
next
  case None
  let ?g' = "g\<lparr>s_componentId := (s_componentId g)(t \<mapsto> s_componentCounter g),
               s_componentCounter := s_componentCounter g + 1\<rparr>"
  from None have e: "snd (GetId t g) = ?g'" by (simp add: GetId_def)
  from r have fin: "finite (dom (s_componentId g))"
    and cnt: "unat (s_componentCounter g) = card (dom (s_componentId g))"
    and lt: "\<forall>t c. s_componentId g t = Some c \<longrightarrow> unat c < unat (s_componentCounter g)"
    and inj: "\<forall>t t' c. s_componentId g t = Some c \<and> s_componentId g t' = Some c \<longrightarrow> t = t'"
    unfolding registry_ok_def by blast+
  from None have nd: "t \<notin> dom (s_componentId g)" by auto
  have card': "card (dom (s_componentId ?g')) = Suc (card (dom (s_componentId g)))"
    using fin nd by simp
  with b e cnt have "Suc (unat (s_componentCounter g)) < 2 ^ 64" by simp
  then have u: "unat (s_componentCounter g + 1) = Suc (unat (s_componentCounter g))"
    by (simp add: unat_word_ariths)
  have "registry_ok ?g'"
    unfolding registry_ok_def
  proof (intro conjI allI impI)
    show "finite (dom (s_componentId ?g'))" using fin by simp
    show "unat (s_componentCounter ?g') = card (dom (s_componentId ?g'))"
      using card' cnt u by simp
  next
    fix t' c assume "s_componentId ?g' t' = Some c"
    then show "unat c < unat (s_componentCounter ?g')"
      using lt u by (fastforce split: if_splits simp: less_Suc_eq)
  next
    fix t1 t2 c assume "s_componentId ?g' t1 = Some c \<and> s_componentId ?g' t2 = Some c"
    then show "t1 = t2"
      using lt inj by (fastforce split: if_splits)
  qed
  with e u show ?thesis by simp
qed


subsection \<open>What a successful call has done\<close>

lemma NewEntity_Inr:
  assumes "NewEntity w = Inr (h, w')"
  shows "(m_freeEntities w = []
           \<and> w' = w\<lparr>m_entities := m_entities w @
                     [\<lparr>m_id = CreateEntityId (of_nat (length (m_entities w))) 0, m_mask = 0\<rparr>]\<rparr>)
       \<or> (m_freeEntities w \<noteq> [] \<and> unat (last (m_freeEntities w)) < length (m_entities w)
           \<and> w' = w\<lparr>m_freeEntities := butlast (m_freeEntities w),
                     m_entities := (m_entities w)[unat (last (m_freeEntities w)) :=
                       (m_entities w ! unat (last (m_freeEntities w)))
                         \<lparr>m_id := CreateEntityId (last (m_freeEntities w))
                            (GetEntityVersion (m_id (m_entities w ! unat (last (m_freeEntities w)))))\<rparr>]\<rparr>)"
  using assms by (auto simp: NewEntity_def Let_def split: if_splits)

lemma DestroyEntity_Inr:
  assumes "DestroyEntity h w = Inr w'"
  shows "unat (GetEntityIndex h) < length (m_entities w)
       \<and> w' = w\<lparr>m_entities := (m_entities w)[unat (GetEntityIndex h) :=
                \<lparr>m_id = CreateEntityId (- 1) (GetEntityVersion h + 1), m_mask = 0\<rparr>],
            m_freeEntities := m_freeEntities w @ [0]\<rparr>"
proof -
  from assms have b: "unat (GetEntityIndex h) < length (m_entities w)"
    by (auto simp: DestroyEntity_def Let_def split: if_splits)
  with assms DestroyEntity_eq [OF b] show ?thesis by simp
qed

lemma unat_succ_small: "unat (c :: ComponentID) < 64 \<Longrightarrow> unat (c + 1) = Suc (unat c)"
  by (simp add: unat_word_ariths)

lemma upd_keeps:
  "k < length xs \<Longrightarrow> xs ! k = Some z \<Longrightarrow> \<exists>y'. (xs[i := Some y]) ! k = Some y'"
  by (cases "k = i") simp_all

lemma Assign_Inr:
  assumes a: "Assign t sz v h (g, w) = Inr (p, g', w')"
  shows "unat (GetEntityIndex h) < length (m_entities w) \<and> g' = snd (GetId t g)
       \<and> (m_id (m_entities w ! unat (GetEntityIndex h)) \<noteq> h \<longrightarrow> p = None \<and> w' = w)
       \<and> (m_id (m_entities w ! unat (GetEntityIndex h)) = h \<longrightarrow>
             p \<noteq> None \<and> unat (fst (GetId t g)) < 64
           \<and> unat (GetEntityIndex h) < MAX_ENTITIES
           \<and> m_entities w' = (m_entities w)[unat (GetEntityIndex h) :=
                 (m_entities w ! unat (GetEntityIndex h))
                   \<lparr>m_mask := set_bit (unat (fst (GetId t g)))
                                (m_mask (m_entities w ! unat (GetEntityIndex h)))\<rparr>]
           \<and> unat (fst (GetId t g)) < length (m_componentPools w')
           \<and> m_componentPools w' ! unat (fst (GetId t g)) \<noteq> None
           \<and> (\<forall>k < length (m_componentPools w). m_componentPools w ! k \<noteq> None \<longrightarrow>
                 k < length (m_componentPools w') \<and> m_componentPools w' ! k \<noteq> None))"
proof -
  obtain c g1 where gi: "GetId t g = (c, g1)" by (cases "GetId t g")
  let ?j = "unat (GetEntityIndex h)"
  from a gi have b: "?j < length (m_entities w)"
    by (auto simp: Assign_def Let_def split: if_splits)
  show ?thesis
  proof (cases "m_id (m_entities w ! ?j) = h")
    case False
    with a gi b show ?thesis
      by (auto simp: Assign_def Let_def)
  next
    case True
    let ?p1 = "if unat c \<ge> length (m_componentPools w)
               then vector_resize (unat (c + 1)) None (m_componentPools w)
               else m_componentPools w"
    let ?p2 = "if ?p1 ! unat c = None then ?p1[unat c := Some (ComponentPool_new sz)] else ?p1"
    let ?pool = "the (?p2 ! unat c)"
    let ?p3 = "?p2[unat c := Some (?pool\<lparr>m_data := (m_data ?pool)(?j \<mapsto> v)\<rparr>)]"
    from a gi b True have c64: "unat c < 64"
      by (auto simp: Assign_def Let_def bitset_set_def MAX_COMPONENTS_def ComponentPool_Get_def
               split: if_splits sum.splits)
    from a gi b True have jm: "?j < MAX_ENTITIES"
      by (auto simp: Assign_def Let_def bitset_set_def MAX_COMPONENTS_def ComponentPool_Get_def
               split: if_splits sum.splits)
    have l1: "unat c < length ?p1"
      using c64 by (auto simp: vector_resize_def unat_succ_small)
    have k1: "\<forall>k < length (m_componentPools w). k < length ?p1 \<and> ?p1 ! k = m_componentPools w ! k"
      using c64 by (auto simp: vector_resize_def unat_succ_small nth_append)
    have flat: "Assign t sz v h (g, w) = Inr (Some (c, ?j), g1, w\<lparr>m_componentPools := ?p3,
        m_entities := (m_entities w)[?j := (m_entities w ! ?j)
          \<lparr>m_mask := set_bit (unat c) (m_mask (m_entities w ! ?j))\<rparr>]\<rparr>)"
    proof (cases "length (m_componentPools w) \<le> unat c")
      case grow: True
      show ?thesis
      proof (cases "?p1 ! unat c = None")
        case True
        with grow gi b \<open>m_id (m_entities w ! ?j) = h\<close> c64 jm l1 show ?thesis
          by (auto simp: Assign_def Let_def bitset_set_def MAX_COMPONENTS_def ComponentPool_Get_def)
      next
        case False
        with grow gi b \<open>m_id (m_entities w ! ?j) = h\<close> c64 jm l1 show ?thesis
          by (auto simp: Assign_def Let_def bitset_set_def MAX_COMPONENTS_def ComponentPool_Get_def)
      qed
    next
      case keep: False
      show ?thesis
      proof (cases "?p1 ! unat c = None")
        case True
        with keep gi b \<open>m_id (m_entities w ! ?j) = h\<close> c64 jm l1 show ?thesis
          by (auto simp: Assign_def Let_def bitset_set_def MAX_COMPONENTS_def ComponentPool_Get_def)
      next
        case False
        with keep gi b \<open>m_id (m_entities w ! ?j) = h\<close> c64 jm l1 show ?thesis
          by (auto simp: Assign_def Let_def bitset_set_def MAX_COMPONENTS_def ComponentPool_Get_def)
      qed
    qed
    with a have w': "w' = w\<lparr>m_componentPools := ?p3,
        m_entities := (m_entities w)[?j := (m_entities w ! ?j)
          \<lparr>m_mask := set_bit (unat c) (m_mask (m_entities w ! ?j))\<rparr>]\<rparr>"
      and p: "p = Some (c, ?j)" and g': "g' = g1"
      by simp_all
    define p1 where "p1 = ?p1"
    define p2 where "p2 = (if p1 ! unat c = None then p1[unat c := Some (ComponentPool_new sz)] else p1)"
    define y where "y = (the (p2 ! unat c))\<lparr>m_data := (m_data (the (p2 ! unat c)))(?j \<mapsto> v)\<rparr>"
    define p3 where "p3 = p2[unat c := Some y]"
    from w' have pe: "m_componentPools w' = p3"
      by (simp add: p3_def y_def p2_def p1_def)
    from w' have me: "m_entities w' = (m_entities w)[?j := (m_entities w ! ?j)
          \<lparr>m_mask := set_bit (unat c) (m_mask (m_entities w ! ?j))\<rparr>]" by simp
    have l1': "unat c < length p1" using l1 by (simp add: p1_def)
    have k1': "\<forall>k < length (m_componentPools w). k < length p1 \<and> p1 ! k = m_componentPools w ! k"
      using k1 by (simp add: p1_def)
    have l2: "length p2 = length p1" by (simp add: p2_def)
    have l3: "length p3 = length p1" by (simp add: p3_def l2)
    have k2: "\<forall>k < length p1. p1 ! k \<noteq> None \<longrightarrow> p2 ! k \<noteq> None"
      by (auto simp: p2_def intro: upd_keeps)
    have k3: "\<forall>k < length p1. p2 ! k \<noteq> None \<longrightarrow> p3 ! k \<noteq> None"
      using l2 by (auto simp: p3_def intro: upd_keeps)
    have c3: "p3 ! unat c \<noteq> None" using l1' l2 by (simp add: p3_def)
    have "\<forall>k < length (m_componentPools w). m_componentPools w ! k \<noteq> None \<longrightarrow>
                 k < length (m_componentPools w') \<and> m_componentPools w' ! k \<noteq> None"
      unfolding pe using k1' k2 k3 l3 by metis
    moreover have "unat c < length (m_componentPools w')" unfolding pe using l1' l3 by simp
    moreover have "m_componentPools w' ! unat c \<noteq> None" unfolding pe using c3 .
    ultimately show ?thesis
      using gi b True c64 jm me p g' by simp
  qed
qed


lemma Remove_Inr:
  assumes a: "Remove t h (g, w) = Inr (g', w')"
  shows "unat (GetEntityIndex h) < length (m_entities w)
       \<and> (m_id (m_entities w ! unat (GetEntityIndex h)) \<noteq> h \<longrightarrow> g' = g \<and> w' = w)
       \<and> (m_id (m_entities w ! unat (GetEntityIndex h)) = h \<longrightarrow>
             g' = snd (GetId t g) \<and> unat (fst (GetId t g)) < 64
           \<and> w' = w\<lparr>m_entities := (m_entities w)[unat (GetEntityIndex h) :=
                 (m_entities w ! unat (GetEntityIndex h))
                   \<lparr>m_mask := unset_bit (unat (fst (GetId t g)))
                                (m_mask (m_entities w ! unat (GetEntityIndex h)))\<rparr>]\<rparr>)"
  using a
  by (cases "GetId t g")
     (auto simp: Remove_def Let_def bitset_reset_def MAX_COMPONENTS_def split: if_splits)

lemma Get_Inr:
  assumes a: "Get t h (g, w) = Inr (p, g', w')"
  shows "w' = w \<and> g' = snd (GetId t g)"
  using a
  by (cases "GetId t g")
     (auto simp: Get_def Let_def bitset_test_def ComponentPool_Get_def
           split: if_splits sum.splits)

lemma Has_Inr:
  assumes a: "Has t h (g, w) = Inr (b, g', w')"
  shows "w' = w \<and> g' = snd (GetId t g)"
proof -
  from a obtain p where "Get t h (g, w) = Inr (p, g', w')"
    by (auto simp: Has_def split: sum.splits)
  then show ?thesis by (rule Get_Inr)
qed

lemma Has_True:
  assumes b: "unat (GetEntityIndex h) < length (m_entities w)"
  shows "(\<exists>s'. Has t h (g, w) = Inr (True, s')) =
         (unat (fst (GetId t g)) < 64
          \<and> bit (m_mask (m_entities w ! unat (GetEntityIndex h))) (unat (fst (GetId t g)))
          \<and> unat (fst (GetId t g)) < length (m_componentPools w)
          \<and> m_componentPools w ! unat (fst (GetId t g)) \<noteq> None
          \<and> unat (GetEntityIndex h) < MAX_ENTITIES)"
  using b
  by (cases "GetId t g")
     (auto simp: Has_def Get_def Let_def bitset_test_def ComponentPool_Get_def MAX_COMPONENTS_def
           split: if_splits sum.splits)

lemma GetIds_snd: "snd (GetIds (t # ts) g) = snd (GetIds ts (snd (GetId t g)))"
  by (simp split: prod.splits)

lemma RosterView_new_globals:
  "RosterView_new ts g = Inr (v, g1) \<Longrightarrow> g1 = snd (GetIds ts g)"
  by (auto simp: RosterView_new_def split: if_splits prod.splits sum.splits)

lemma traverse_globals:
  assumes t: "RosterView_traverse ts (g, w) = Some (Inr (visited, g'))"
  shows "g' = snd (GetIds ts g)"
proof (cases "RosterView_new ts g")
  case (Inl e)
  with t show ?thesis by (simp add: traverse_fault)
next
  case (Inr p)
  then obtain v g1 where v: "RosterView_new ts g = Inr (v, g1)" by (cases p) simp
  from t have "g' = g1"
    by (auto simp: traverse_unfold [OF v] split: sum.splits option.splits)
  with RosterView_new_globals [OF v] show ?thesis by simp
qed

subsection \<open>The log and a growing registry\<close>

lemma kept_snoc:
  "assigned_and_kept t h (log @ [e]) = kept_step t h (assigned_and_kept t h log) e"
  by (simp add: assigned_and_kept_def)

lemma has_bit_GetId:
  assumes r: "registry_ok g" and m: "masks_ok (g, w)"
  shows "has_bit t' h (snd (GetId t g), w) = has_bit t' h (g, w)"
proof (cases "s_componentId g t")
  case (Some c)
  then have "GetId t g = (c, g)" by (simp add: GetId_def)
  then show ?thesis by simp
next
  case None
  let ?g' = "snd (GetId t g)"
  have ids: "s_componentId ?g' = (s_componentId g)(t \<mapsto> s_componentCounter g)"
    using None by (simp add: GetId_def)
  show ?thesis
  proof (cases "t' = t")
    case False
    then show ?thesis by (simp add: has_bit_def ids)
  next
    case True
    have "\<not> has_bit t h (g, w)" using None by (simp add: has_bit_def)
    moreover have "\<not> has_bit t h (?g', w)"
    proof
      assume "has_bit t h (?g', w)"
      then have l: "unat (GetEntityIndex h) < length (m_entities w)"
        and b: "bit (m_mask (m_entities w ! unat (GetEntityIndex h))) (unat (s_componentCounter g))"
        by (auto simp: has_bit_def ids live_def)
      from m l b have "unat (s_componentCounter g) < unat (s_componentCounter g)"
        unfolding masks_ok_def by (metis fst_conv snd_conv)
      then show False by simp
    qed
    ultimately show ?thesis using True by simp
  qed
qed

lemma masks_ok_registry:
  "masks_ok (g, w) \<Longrightarrow> unat (s_componentCounter g) \<le> unat (s_componentCounter g') \<Longrightarrow>
   masks_ok (g', w)"
  unfolding masks_ok_def by (metis fst_conv snd_conv order_less_le_trans)

lemma inv_GetId:
  assumes i: "inv (g, w) log" and b: "card (dom (s_componentId (snd (GetId t g)))) < 2 ^ 64"
  shows "inv (snd (GetId t g), w) log"
proof -
  from i have r: "registry_ok g" and m: "masks_ok (g, w)" and s: "slots_ok w"
    and l: "log_ok (g, w) log" by (simp_all add: inv_def)
  from GetId_registry_ok [OF r b] have r': "registry_ok (snd (GetId t g))"
    and mono: "unat (s_componentCounter g) \<le> unat (s_componentCounter (snd (GetId t g)))"
    by simp_all
  from masks_ok_registry [OF m mono] have m': "masks_ok (snd (GetId t g), w)" .
  from l have l': "log_ok (snd (GetId t g), w) log"
    by (simp add: log_ok_def has_bit_GetId [OF r m])
  from r' m' s l' show ?thesis by (simp add: inv_def)
qed

lemma GetIds_dom: "dom (s_componentId (snd (GetIds ts g))) = set ts \<union> dom (s_componentId g)"
proof (induction ts arbitrary: g)
  case Nil
  then show ?case by simp
next
  case (Cons t ts)
  show ?case
    by (simp only: GetIds_snd Cons.IH GetId_dom) auto
qed

lemma inv_GetIds:
  "inv (g, w) log \<Longrightarrow> card (dom (s_componentId (snd (GetIds ts g)))) < 2 ^ 64 \<Longrightarrow>
   inv (snd (GetIds ts g), w) log"
proof (induction ts arbitrary: g)
  case Nil
  then show ?case by simp
next
  case (Cons t ts)
  from Cons.prems(1) have fin: "finite (dom (s_componentId g))"
    by (simp add: inv_def registry_ok_def)
  have sub: "dom (s_componentId (snd (GetId t g))) \<subseteq> dom (s_componentId (snd (GetIds (t # ts) g)))"
    by (simp only: GetIds_dom GetId_dom) auto
  have "finite (dom (s_componentId (snd (GetIds (t # ts) g))))"
    using fin by (simp only: GetIds_dom) simp
  with sub have "card (dom (s_componentId (snd (GetId t g))))
                  \<le> card (dom (s_componentId (snd (GetIds (t # ts) g))))"
    by (rule card_mono [rotated])
  with Cons.prems(2) have b: "card (dom (s_componentId (snd (GetId t g)))) < 2 ^ 64" by simp
  from inv_GetId [OF Cons.prems(1) b] have "inv (snd (GetId t g), w) log" .
  from Cons.IH [OF this] Cons.prems(2) show ?case
    by (simp only: GetIds_snd)
qed


subsection \<open>Each call keeps the invariant\<close>

lemma unat_idx_eq: "(unat (a :: EntityIndex) = unat b) = (a = b)"
  by (simp add: word_unat_eq_iff)

lemma inv_NewEntity:
  assumes i: "inv (g, w) log" and n: "NewEntity w = Inr (h0, w')"
  shows "inv (g, w') (log @ [(NewEntity_call, Handle h0)])"
proof -
  from i have r: "registry_ok g" and m: "masks_ok (g, w)" and s: "slots_ok w"
    and l: "log_ok (g, w) log" by (simp_all add: inv_def)
  let ?es = "m_entities w"
  from NewEntity_Inr [OF n] show ?thesis
  proof (elim disjE conjE)
    let ?d = "\<lparr>m_id = CreateEntityId (of_nat (length ?es)) 0, m_mask = 0\<rparr>"
    assume w': "w' = w\<lparr>m_entities := ?es @ [?d]\<rparr>"
    have m': "masks_ok (g, w')"
      using m unfolding masks_ok_def w'
      by (auto simp: nth_append less_Suc_eq)
    have s': "slots_ok w'"
      using s unfolding slots_ok_def w'
      by (auto simp: nth_append less_Suc_eq)
    have hb: "has_bit t h (g, w') = has_bit t h (g, w)" for t :: 'a and h
      unfolding has_bit_def live_def w'
      by (auto simp: nth_append less_Suc_eq)
    have l': "log_ok (g, w') (log @ [(NewEntity_call, Handle h0)])"
      using l by (simp add: log_ok_def kept_snoc hb)
    from r m' s' l' show ?thesis by (simp add: inv_def)
  next
    let ?i = "last (m_freeEntities w)"
    let ?nid = "CreateEntityId ?i (GetEntityVersion (m_id (?es ! unat ?i)))"
    assume b: "unat ?i < length ?es"
      and w': "w' = w\<lparr>m_freeEntities := butlast (m_freeEntities w),
                     m_entities := ?es[unat ?i := (?es ! unat ?i)\<lparr>m_id := ?nid\<rparr>]\<rparr>"
    have mk: "m_mask (m_entities w' ! k) = m_mask (?es ! k)" if "k < length ?es" for k
      using that unfolding w' by (cases "k = unat ?i") simp_all
    have len: "length (m_entities w') = length ?es" unfolding w' by simp
    have pl: "m_componentPools w' = m_componentPools w" unfolding w' by simp
    have m': "masks_ok (g, w')"
      using m unfolding masks_ok_def by (simp add: mk len pl)
    have idk: "m_mask (?es ! k) \<noteq> 0 \<Longrightarrow> m_id (m_entities w' ! k) = m_id (?es ! k)"
      if k: "k < length ?es" for k
    proof (cases "k = unat ?i")
      case False
      then show ?thesis using k unfolding w' by simp
    next
      case True
      assume "m_mask (?es ! k) \<noteq> 0"
      with s k have "unat (GetEntityIndex (m_id (?es ! k))) = k"
        by (simp add: slots_ok_def)
      with True have "GetEntityIndex (m_id (?es ! unat ?i)) = ?i"
        by (simp add: unat_idx_eq)
      then have "?nid = m_id (?es ! unat ?i)"
        using Create_decode [of "m_id (?es ! unat ?i)"] by simp
      with True k show ?thesis unfolding w' by simp
    qed
    have s': "slots_ok w'"
      unfolding slots_ok_def
    proof (intro allI impI)
      fix k assume k: "k < length (m_entities w')" and nz: "m_mask (m_entities w' ! k) \<noteq> 0"
      from k len have k': "k < length ?es" by simp
      with nz have nz': "m_mask (?es ! k) \<noteq> 0" by (simp add: mk)
      from idk [OF k' nz'] s k' nz'
      show "unat (GetEntityIndex (m_id (m_entities w' ! k))) = k"
        by (simp add: slots_ok_def)
    qed
    have hb: "has_bit t h (g, w') = has_bit t h (g, w)" for t :: 'a and h
    proof (cases "unat (GetEntityIndex h) < length ?es")
      case False
      then show ?thesis by (simp add: has_bit_def live_def len)
    next
      case True
      show ?thesis
      proof (cases "m_mask (?es ! unat (GetEntityIndex h)) = 0")
        case z: True
        then show ?thesis using True by (simp add: has_bit_def mk)
      next
        case False
        from idk [OF True False] True show ?thesis
          by (simp add: has_bit_def live_def len mk)
      qed
    qed
    have l': "log_ok (g, w') (log @ [(NewEntity_call, Handle h0)])"
      using l by (simp add: log_ok_def kept_snoc hb)
    from r m' s' l' show ?thesis by (simp add: inv_def)
  qed
qed

lemma masks_ok_shrink:
  assumes m: "masks_ok (g, w)"
    and len: "length (m_entities w') = length (m_entities w)"
    and pl: "m_componentPools w' = m_componentPools w"
    and sub: "\<And>k c. k < length (m_entities w) \<Longrightarrow> bit (m_mask (m_entities w' ! k)) c \<Longrightarrow>
                bit (m_mask (m_entities w ! k)) c"
  shows "masks_ok (g, w')"
  unfolding masks_ok_def
proof (intro allI impI)
  fix k c
  assume k: "k < length (m_entities (snd (g, w')))"
    and b: "bit (m_mask (m_entities (snd (g, w')) ! k)) c"
  from k len have k': "k < length (m_entities w)" by simp
  from b have "bit (m_mask (m_entities w ! k)) c" using sub [OF k'] by simp
  with m k' show "c < unat (s_componentCounter (fst (g, w')))
        \<and> c < length (m_componentPools (snd (g, w')))
        \<and> m_componentPools (snd (g, w')) ! c \<noteq> None
        \<and> k < MAX_ENTITIES"
    unfolding masks_ok_def by (simp add: pl)
qed

lemma slots_ok_shrink:
  assumes s: "slots_ok w"
    and len: "length (m_entities w') = length (m_entities w)"
    and sub: "\<And>k. k < length (m_entities w) \<Longrightarrow> m_mask (m_entities w' ! k) \<noteq> 0 \<Longrightarrow>
                m_mask (m_entities w ! k) \<noteq> 0 \<and> m_id (m_entities w' ! k) = m_id (m_entities w ! k)"
  shows "slots_ok w'"
  unfolding slots_ok_def
proof (intro allI impI)
  fix k
  assume k: "k < length (m_entities w')" and nz: "m_mask (m_entities w' ! k) \<noteq> 0"
  from k len have k': "k < length (m_entities w)" by simp
  from sub [OF k' nz] s k'
  show "unat (GetEntityIndex (m_id (m_entities w' ! k))) = k"
    by (simp add: slots_ok_def)
qed

lemma inv_DestroyEntity:
  assumes i: "inv (g, w) log" and d: "DestroyEntity h0 w = Inr w'"
  shows "inv (g, w') (log @ [(DestroyEntity_call h0, Unit)])"
proof -
  from i have r: "registry_ok g" and m: "masks_ok (g, w)" and s: "slots_ok w"
    and l: "log_ok (g, w) log" by (simp_all add: inv_def)
  let ?es = "m_entities w"
  let ?j = "unat (GetEntityIndex h0)"
  from DestroyEntity_Inr [OF d] have b: "?j < length ?es"
    and w': "w' = w\<lparr>m_entities := ?es[?j :=
                \<lparr>m_id = CreateEntityId (- 1) (GetEntityVersion h0 + 1), m_mask = 0\<rparr>],
            m_freeEntities := m_freeEntities w @ [0]\<rparr>" by simp_all
  have len: "length (m_entities w') = length ?es" unfolding w' by simp
  have pl: "m_componentPools w' = m_componentPools w" unfolding w' by simp
  have mk: "m_mask (m_entities w' ! k) = (if k = ?j then 0 else m_mask (?es ! k))"
    if "k < length ?es" for k
    using that unfolding w' by simp
  have ik: "k \<noteq> ?j \<Longrightarrow> m_id (m_entities w' ! k) = m_id (?es ! k)" for k
    unfolding w' by simp
  have m': "masks_ok (g, w')"
    using m len pl by (rule masks_ok_shrink) (simp add: mk split: if_splits)
  have s': "slots_ok w'"
    using s len by (rule slots_ok_shrink) (auto simp: mk ik split: if_splits)
  have hb: "has_bit t h (g, w') =
              (if GetEntityIndex h0 = GetEntityIndex h then False else has_bit t h (g, w))"
    for t :: 'a and h
  proof (cases "GetEntityIndex h0 = GetEntityIndex h")
    case True
    then show ?thesis using b unfolding has_bit_def live_def w' by simp
  next
    case False
    then have "unat (GetEntityIndex h) \<noteq> ?j" by (simp add: unat_idx_eq)
    then show ?thesis using False unfolding has_bit_def live_def w' by simp
  qed
  have l': "log_ok (g, w') (log @ [(DestroyEntity_call h0, Unit)])"
    using l by (simp add: log_ok_def kept_snoc hb)
  from r m' s' l' show ?thesis by (simp add: inv_def)
qed


lemma kept_Assign_None:
  "assigned_and_kept t h (log @ [(Assign_call t0 sz v h0, Pointer None)]) = assigned_and_kept t h log"
  by (simp add: kept_snoc)

lemma inv_Assign:
  assumes i: "inv (g, w) log" and a: "Assign t0 sz v h0 (g, w) = Inr (p, g', w')"
    and cb: "card (dom (s_componentId g')) < 2 ^ 64"
  shows "inv (g', w') (log @ [(Assign_call t0 sz v h0, Pointer p)])"
proof -
  let ?es = "m_entities w"
  let ?j = "unat (GetEntityIndex h0)"
  let ?c = "fst (GetId t0 g)"
  from Assign_Inr [OF a] have b: "?j < length ?es" and g': "g' = snd (GetId t0 g)"
    by simp_all
  from inv_GetId [OF i] cb g' have i1: "inv (g', w) log" by simp
  then have r: "registry_ok g'" and m: "masks_ok (g', w)" and s: "slots_ok w"
    and l: "log_ok (g', w) log" by (simp_all add: inv_def)
  have idc: "s_componentId g' t0 = Some ?c" unfolding g' by (rule GetId_fst)
  show ?thesis
  proof (cases "m_id (?es ! ?j) = h0")
    case False
    with Assign_Inr [OF a] have "p = None" "w' = w" by simp_all
    with i1 show ?thesis
      by (simp add: inv_def log_ok_def kept_Assign_None)
  next
    case True
    with Assign_Inr [OF a] have pn: "p \<noteq> None" and c64: "unat ?c < 64"
      and jm: "?j < MAX_ENTITIES"
      and me: "m_entities w' = ?es[?j := (?es ! ?j)\<lparr>m_mask := set_bit (unat ?c) (m_mask (?es ! ?j))\<rparr>]"
      and pc: "unat ?c < length (m_componentPools w')"
      and pcn: "m_componentPools w' ! unat ?c \<noteq> None"
      and pk: "\<forall>k < length (m_componentPools w). m_componentPools w ! k \<noteq> None \<longrightarrow>
                 k < length (m_componentPools w') \<and> m_componentPools w' ! k \<noteq> None"
      by simp_all
    have len: "length (m_entities w') = length ?es" unfolding me by simp
    have mj: "m_mask (m_entities w' ! ?j) = set_bit (unat ?c) (m_mask (?es ! ?j))"
      using b unfolding me by simp
    have ij: "m_id (m_entities w' ! ?j) = h0"
      using b True unfolding me by simp
    have ok: "k \<noteq> ?j \<Longrightarrow> m_entities w' ! k = ?es ! k" for k
      unfolding me by simp
    from r idc have clt: "unat ?c < unat (s_componentCounter g')"
      unfolding registry_ok_def by blast
    have m': "masks_ok (g', w')"
      unfolding masks_ok_def
    proof (intro allI impI)
      fix k c
      assume k: "k < length (m_entities (snd (g', w')))"
        and bt: "bit (m_mask (m_entities (snd (g', w')) ! k)) c"
      from k len have k': "k < length ?es" by simp
      have old: "bit (m_mask (?es ! k)) c \<Longrightarrow>
            c < unat (s_componentCounter g') \<and> c < length (m_componentPools w')
          \<and> m_componentPools w' ! c \<noteq> None \<and> k < MAX_ENTITIES"
        using m k' pk unfolding masks_ok_def by (metis fst_conv snd_conv)
      show "c < unat (s_componentCounter (fst (g', w')))
          \<and> c < length (m_componentPools (snd (g', w')))
          \<and> m_componentPools (snd (g', w')) ! c \<noteq> None \<and> k < MAX_ENTITIES"
      proof (cases "k = ?j \<and> c = unat ?c")
        case True
        with clt pc pcn jm show ?thesis by simp
      next
        case False
        with bt have "bit (m_mask (?es ! k)) c"
          by (cases "k = ?j") (auto simp: mj ok bit_set_bit_iff)
        with old show ?thesis by simp
      qed
    qed
    have s': "slots_ok w'"
      unfolding slots_ok_def
    proof (intro allI impI)
      fix k
      assume k: "k < length (m_entities w')" and nz: "m_mask (m_entities w' ! k) \<noteq> 0"
      show "unat (GetEntityIndex (m_id (m_entities w' ! k))) = k"
      proof (cases "k = ?j")
        case True
        then show ?thesis by (simp add: ij)
      next
        case False
        with s k nz len show ?thesis by (simp add: ok slots_ok_def)
      qed
    qed
    have hb: "has_bit t h (g', w') = (if t = t0 \<and> h = h0 then True else has_bit t h (g', w))"
      for t h
    proof (cases "unat (GetEntityIndex h) = ?j")
      case False
      then have "h \<noteq> h0" by auto
      with False show ?thesis
        by (simp add: has_bit_def live_def len ok)
    next
      case same: True
      show ?thesis
      proof (cases "h = h0")
        case False
        with same True ij b show ?thesis
          by (simp add: has_bit_def live_def len)
      next
        case h: True
        show ?thesis
        proof (cases "t = t0")
          case True
          with h b ij idc c64 show ?thesis
            by (simp add: has_bit_def live_def len mj bit_set_bit_iff)
        next
          case False
          have ne: "s_componentId g' t = Some c \<Longrightarrow> unat c \<noteq> unat ?c" for c
          proof
            assume "s_componentId g' t = Some c" and "unat c = unat ?c"
            then have "s_componentId g' t = Some ?c" by (simp add: word_unat_eq_iff)
            with idc r have "t = t0" unfolding registry_ok_def by blast
            with False show False by simp
          qed
          have "(\<exists>c. s_componentId g' t = Some c \<and> unat c < 64
                   \<and> bit (set_bit (unat ?c) (m_mask (?es ! ?j))) (unat c))
              = (\<exists>c. s_componentId g' t = Some c \<and> unat c < 64
                   \<and> bit (m_mask (?es ! ?j)) (unat c))"
            using ne by (auto simp: bit_set_bit_iff)
          with h False b ij \<open>m_id (?es ! ?j) = h0\<close> show ?thesis
            by (simp add: has_bit_def live_def len mj)
        qed
      qed
    qed
    have l': "log_ok (g', w') (log @ [(Assign_call t0 sz v h0, Pointer p)])"
      using l pn by (auto simp: log_ok_def kept_snoc hb)
    from r m' s' l' show ?thesis by (simp add: inv_def)
  qed
qed


lemma inv_Remove:
  assumes i: "inv (g, w) log" and a: "Remove t0 h0 (g, w) = Inr (g', w')"
    and cb: "card (dom (s_componentId g')) < 2 ^ 64"
  shows "inv (g', w') (log @ [(Remove_call t0 h0, Unit)])"
proof -
  let ?es = "m_entities w"
  let ?j = "unat (GetEntityIndex h0)"
  let ?c = "fst (GetId t0 g)"
  from Remove_Inr [OF a] have b: "?j < length ?es" by simp
  show ?thesis
  proof (cases "m_id (?es ! ?j) = h0")
    case False
    with Remove_Inr [OF a] have e: "g' = g" "w' = w" by simp_all
    from False have nl: "\<not> live h0 w" by (simp add: live_def)
    from i have l: "log_ok (g, w) log" by (simp add: inv_def)
    have "log_ok (g, w) (log @ [(Remove_call t0 h0, Unit)])"
      using l nl by (auto simp: log_ok_def kept_snoc has_bit_def)
    with i e show ?thesis by (simp add: inv_def)
  next
    case True
    with Remove_Inr [OF a] have g': "g' = snd (GetId t0 g)" and c64: "unat ?c < 64"
      and w': "w' = w\<lparr>m_entities := ?es[?j :=
                 (?es ! ?j)\<lparr>m_mask := unset_bit (unat ?c) (m_mask (?es ! ?j))\<rparr>]\<rparr>"
      by simp_all
    from inv_GetId [OF i] cb g' have i1: "inv (g', w) log" by simp
    then have r: "registry_ok g'" and m: "masks_ok (g', w)" and s: "slots_ok w"
      and l: "log_ok (g', w) log" by (simp_all add: inv_def)
    have idc: "s_componentId g' t0 = Some ?c" unfolding g' by (rule GetId_fst)
    have len: "length (m_entities w') = length ?es" unfolding w' by simp
    have pl: "m_componentPools w' = m_componentPools w" unfolding w' by simp
    have mj: "m_mask (m_entities w' ! ?j) = unset_bit (unat ?c) (m_mask (?es ! ?j))"
      using b unfolding w' by simp
    have ij: "m_id (m_entities w' ! ?j) = h0"
      using b True unfolding w' by simp
    have ok: "k \<noteq> ?j \<Longrightarrow> m_entities w' ! k = ?es ! k" for k
      unfolding w' by simp
    have sub: "bit (m_mask (m_entities w' ! k)) c \<Longrightarrow> bit (m_mask (?es ! k)) c" for k c
      by (cases "k = ?j") (auto simp: mj ok bit_unset_bit_iff)
    have m': "masks_ok (g', w')"
      using m len pl by (rule masks_ok_shrink) (rule sub)
    have s': "slots_ok w'"
      using s len
    proof (rule slots_ok_shrink)
      fix k
      assume k: "k < length ?es" and nz: "m_mask (m_entities w' ! k) \<noteq> 0"
      from nz obtain c where "bit (m_mask (m_entities w' ! k)) c"
        by (auto simp: bit_eq_iff)
      then have "bit (m_mask (?es ! k)) c" by (rule sub)
      then have "m_mask (?es ! k) \<noteq> 0" by auto
      moreover have "m_id (m_entities w' ! k) = m_id (?es ! k)"
        using True ij by (cases "k = ?j") (simp_all add: ok)
      ultimately show "m_mask (?es ! k) \<noteq> 0 \<and> m_id (m_entities w' ! k) = m_id (?es ! k)"
        by simp
    qed
    have hb: "has_bit t h (g', w') = (if t = t0 \<and> h = h0 then False else has_bit t h (g', w))"
      for t h
    proof (cases "unat (GetEntityIndex h) = ?j")
      case False
      then have "h \<noteq> h0" by auto
      with False show ?thesis
        by (simp add: has_bit_def live_def len ok)
    next
      case same: True
      show ?thesis
      proof (cases "h = h0")
        case False
        with same True ij b show ?thesis
          by (simp add: has_bit_def live_def len)
      next
        case h: True
        show ?thesis
        proof (cases "t = t0")
          case True
          with h idc show ?thesis
            by (simp add: has_bit_def mj bit_unset_bit_iff)
        next
          case False
          have ne: "s_componentId g' t = Some c \<Longrightarrow> unat c \<noteq> unat ?c" for c
          proof
            assume "s_componentId g' t = Some c" and "unat c = unat ?c"
            then have "s_componentId g' t = Some ?c" by (simp add: word_unat_eq_iff)
            with idc r have "t = t0" unfolding registry_ok_def by blast
            with False show False by simp
          qed
          have "(\<exists>c. s_componentId g' t = Some c \<and> unat c < 64
                   \<and> bit (unset_bit (unat ?c) (m_mask (?es ! ?j))) (unat c))
              = (\<exists>c. s_componentId g' t = Some c \<and> unat c < 64
                   \<and> bit (m_mask (?es ! ?j)) (unat c))"
            using ne by (auto simp: bit_unset_bit_iff)
          with h False b ij \<open>m_id (?es ! ?j) = h0\<close> show ?thesis
            by (simp add: has_bit_def live_def len mj)
        qed
      qed
    qed
    have l': "log_ok (g', w') (log @ [(Remove_call t0 h0, Unit)])"
      using l by (auto simp: log_ok_def kept_snoc hb)
    from r m' s' l' show ?thesis by (simp add: inv_def)
  qed
qed

subsection \<open>One call, then a sequence\<close>

lemma inv_log_same:
  "inv s log \<Longrightarrow> (\<And>t h b. kept_step t h b e = b) \<Longrightarrow> inv s (log @ [e])"
  by (simp add: inv_def log_ok_def kept_snoc)

lemma inv_exec:
  assumes i: "inv s log" and e: "exec c s = Some (Inr (r, s'))"
    and cb: "card (dom (s_componentId (fst s'))) < 2 ^ 64"
  shows "inv s' (log @ [(c, r)])"
proof -
  obtain g w where s: "s = (g, w)" by (cases s)
  obtain g' w' where s': "s' = (g', w')" by (cases s')
  show ?thesis
  proof (cases c)
    case NewEntity_call
    with e s s' obtain h0 where "NewEntity w = Inr (h0, w')" "r = Handle h0" "g' = g"
      by (auto split: sum.splits)
    with inv_NewEntity [of g w log h0 w'] i s s' NewEntity_call show ?thesis by simp
  next
    case (DestroyEntity_call h0)
    with e s s' have "DestroyEntity h0 w = Inr w'" "r = Unit" "g' = g"
      by (auto split: sum.splits)
    with inv_DestroyEntity [of g w log h0 w'] i s s' DestroyEntity_call show ?thesis by simp
  next
    case (Assign_call t0 sz v h0)
    with e s s' obtain p where "Assign t0 sz v h0 (g, w) = Inr (p, g', w')" "r = Pointer p"
      by (auto split: sum.splits)
    with inv_Assign [of g w log t0 sz v h0 p g' w'] i s s' cb Assign_call show ?thesis by simp
  next
    case (Remove_call t0 h0)
    with e s s' have "Remove t0 h0 (g, w) = Inr (g', w')" "r = Unit"
      by (auto split: sum.splits)
    with inv_Remove [of g w log t0 h0 g' w'] i s s' cb Remove_call show ?thesis by simp
  next
    case (Get_call t0 h0)
    with e s s' obtain p where a: "Get t0 h0 (g, w) = Inr (p, g', w')"
      by (auto split: sum.splits)
    from Get_Inr [OF a] have "w' = w" "g' = snd (GetId t0 g)" by simp_all
    with inv_GetId [of g w log t0] i s s' cb have "inv s' log" by simp
    then show ?thesis unfolding Get_call by (rule inv_log_same) simp
  next
    case (Has_call t0 h0)
    with e s s' obtain b where a: "Has t0 h0 (g, w) = Inr (b, g', w')"
      by (auto split: sum.splits)
    from Has_Inr [OF a] have "w' = w" "g' = snd (GetId t0 g)" by simp_all
    with inv_GetId [of g w log t0] i s s' cb have "inv s' log" by simp
    then show ?thesis unfolding Has_call by (rule inv_log_same) simp
  next
    case (Traverse_call ts)
    with e s s' obtain visited where a: "RosterView_traverse ts (g, w) = Some (Inr (visited, g'))"
      and "w' = w"
      by (auto split: option.splits sum.splits)
    from traverse_globals [OF a] have "g' = snd (GetIds ts g)" .
    with inv_GetIds [of g w log ts] i s s' cb \<open>w' = w\<close> have "inv s' log" by simp
    then show ?thesis unfolding Traverse_call by (rule inv_log_same) simp
  qed
qed

lemma exec_dom:
  assumes e: "exec c s = Some (Inr (r, s'))"
  shows "dom (s_componentId (fst s)) \<subseteq> dom (s_componentId (fst s'))
       \<and> (finite (dom (s_componentId (fst s))) \<longrightarrow> finite (dom (s_componentId (fst s'))))"
proof -
  obtain g w where s: "s = (g, w)" by (cases s)
  obtain g' w' where s': "s' = (g', w')" by (cases s')
  have "g' = g \<or> (\<exists>t. g' = snd (GetId t g)) \<or> (\<exists>ts. g' = snd (GetIds ts g))"
  proof (cases c)
    case NewEntity_call
    with e s s' show ?thesis by (auto split: sum.splits)
  next
    case (DestroyEntity_call h0)
    with e s s' show ?thesis by (auto split: sum.splits)
  next
    case (Assign_call t0 sz v h0)
    with e s s' obtain p where "Assign t0 sz v h0 (g, w) = Inr (p, g', w')"
      by (auto split: sum.splits)
    from Assign_Inr [OF this] show ?thesis by blast
  next
    case (Remove_call t0 h0)
    with e s s' have "Remove t0 h0 (g, w) = Inr (g', w')"
      by (auto split: sum.splits)
    from Remove_Inr [OF this] show ?thesis by blast
  next
    case (Get_call t0 h0)
    with e s s' obtain p where "Get t0 h0 (g, w) = Inr (p, g', w')"
      by (auto split: sum.splits)
    from Get_Inr [OF this] show ?thesis by blast
  next
    case (Has_call t0 h0)
    with e s s' obtain b where "Has t0 h0 (g, w) = Inr (b, g', w')"
      by (auto split: sum.splits)
    from Has_Inr [OF this] show ?thesis by blast
  next
    case (Traverse_call ts)
    with e s s' obtain visited where "RosterView_traverse ts (g, w) = Some (Inr (visited, g'))"
      by (auto split: option.splits sum.splits)
    from traverse_globals [OF this] show ?thesis by blast
  qed
  then have "dom (s_componentId g) \<subseteq> dom (s_componentId g')
       \<and> (finite (dom (s_componentId g)) \<longrightarrow> finite (dom (s_componentId g')))"
  proof (elim disjE exE)
    assume "g' = g"
    then show ?thesis by simp
  next
    fix t assume "g' = snd (GetId t g)"
    then show ?thesis by (simp only: GetId_dom) auto
  next
    fix ts assume "g' = snd (GetIds ts g)"
    then show ?thesis by (simp only: GetIds_dom) auto
  qed
  then show ?thesis
    unfolding s s' by simp
qed

lemma run_dom:
  "run cs s = Some (Inr (log, s')) \<Longrightarrow>
   dom (s_componentId (fst s)) \<subseteq> dom (s_componentId (fst s'))
   \<and> (finite (dom (s_componentId (fst s))) \<longrightarrow> finite (dom (s_componentId (fst s'))))"
proof (induction cs arbitrary: s log)
  case Nil
  then show ?case by simp
next
  case (Cons c cs)
  from Cons.prems obtain r s1 log' where e: "exec c s = Some (Inr (r, s1))"
    and rn: "run cs s1 = Some (Inr (log', s'))"
    by (auto split: option.splits sum.splits)
  from exec_dom [OF e] Cons.IH [OF rn] show ?case by blast
qed

lemma inv_run:
  "inv s log0 \<Longrightarrow> run cs s = Some (Inr (log, s')) \<Longrightarrow>
   card (dom (s_componentId (fst s'))) < 2 ^ 64 \<Longrightarrow> inv s' (log0 @ log)"
proof (induction cs arbitrary: s log0 log)
  case Nil
  then show ?case by simp
next
  case (Cons c cs)
  from Cons.prems(2) obtain r s1 log' where e: "exec c s = Some (Inr (r, s1))"
    and rn: "run cs s1 = Some (Inr (log', s'))" and lg: "log = (c, r) # log'"
    by (auto split: option.splits sum.splits)
  from Cons.prems(1) have "finite (dom (s_componentId (fst s)))"
    by (simp add: inv_def registry_ok_def)
  with exec_dom [OF e] have f1: "finite (dom (s_componentId (fst s1)))" by simp
  with run_dom [OF rn] have sub: "dom (s_componentId (fst s1)) \<subseteq> dom (s_componentId (fst s'))"
    and f': "finite (dom (s_componentId (fst s')))" by simp_all
  from card_mono [OF f' sub] Cons.prems(3)
  have "card (dom (s_componentId (fst s1))) < 2 ^ 64" by simp
  from inv_exec [OF Cons.prems(1) e this] have "inv s1 (log0 @ [(c, r)])" .
  from Cons.IH [OF this rn Cons.prems(3)] lg show ?case by simp
qed

subsection \<open>Clients that destroy live handles only\<close>




lemma inv_start: "registry_ok g \<Longrightarrow> inv (g, World_new) []"
  by (simp add: inv_def masks_ok_def slots_ok_def log_ok_def
                has_bit_def live_def assigned_and_kept_def World_new_def)



lemma has_iff_has_bit:
  assumes i: "inv s log" and lv: "live h (snd s)"
  shows "(\<exists>s'. Has t h s = Inr (True, s')) = assigned_and_kept t h log"
proof -
  obtain g w where s: "s = (g, w)" by (cases s)
  from i have m: "masks_ok (g, w)" and l: "log_ok (g, w) log" by (simp_all add: inv_def s)
  let ?j = "unat (GetEntityIndex h)"
  let ?c = "fst (GetId t g)"
  from lv s have b: "?j < length (m_entities w)" by (simp add: live_def)
  have rest: "bit (m_mask (m_entities w ! ?j)) c \<Longrightarrow>
      c < unat (s_componentCounter g) \<and> c < length (m_componentPools w)
      \<and> m_componentPools w ! c \<noteq> None \<and> ?j < MAX_ENTITIES" for c
    using m b unfolding masks_ok_def by (metis fst_conv snd_conv)
  have lhs: "(\<exists>s'. Has t h (g, w) = Inr (True, s'))
             = (unat ?c < 64 \<and> bit (m_mask (m_entities w ! ?j)) (unat ?c))"
    unfolding Has_True [OF b] using rest [of "unat ?c"] by blast
  have rhs: "has_bit t h (g, w)
             = (unat ?c < 64 \<and> bit (m_mask (m_entities w ! ?j)) (unat ?c))"
  proof (cases "s_componentId g t")
    case (Some c)
    then have "GetId t g = (c, g)" by (simp add: GetId_def)
    with Some lv s show ?thesis by (simp add: has_bit_def)
  next
    case None
    then have "?c = s_componentCounter g" by (simp add: GetId_def)
    with rest [of "unat ?c"] have "\<not> bit (m_mask (m_entities w ! ?j)) (unat ?c)" by auto
    with None show ?thesis by (simp add: has_bit_def)
  qed
  from l lhs rhs show ?thesis by (simp add: log_ok_def s)
qed

text \<open>
  Without the obligation the two readings part. After the double destruction the
  handle of generation 1 is live again and was assigned a \<^verbatim>\<open>Transform\<close> with no removal or
  destruction through that handle since, yet \<^verbatim>\<open>Has<Transform>\<close> is false: the destruction
  through the stale handle of generation 0 cleared the mask of the slot. Whatever a
  client destroys, \<^verbatim>\<open>Has\<close> follows the second reading.
\<close>

lemma double_destroy_forgets_component:
  "run double_destroy fresh = Some (Inr (double_destroy_log, (one_type, emptied_world)))
   \<and> \<not> destroys_live double_destroy fresh
   \<and> live (CreateEntityId 0 1) emptied_world
   \<and> assigned_and_kept_as_stated ''Transform'' (CreateEntityId 0 1) double_destroy_log
   \<and> \<not> assigned_and_kept ''Transform'' (CreateEntityId 0 1) double_destroy_log
   \<and> Has ''Transform'' (CreateEntityId 0 1) (one_type, emptied_world)
        = Inr (False, one_type, emptied_world)"
  by (simp add: double_destroy_def double_destroy_log_def emptied_world_def one_type_def ev
                live_def assigned_and_kept_as_stated_def assigned_and_kept_def
                EntityDesc_updates)

lemma has_iff_kept_whatever_is_destroyed:
  assumes r0: "registry_ok g0"
    and rn: "run cs (g0, World_new) = Some (Inr (log, s))"
    and cb: "card (dom (s_componentId (fst s))) < 2 ^ 64"
    and lv: "live h (snd s)"
  shows "(\<exists>s'. Has t h s = Inr (True, s')) = assigned_and_kept t h log"
proof -
  from inv_run [OF inv_start [OF r0] rn cb] have "inv s log" by simp
  from has_iff_has_bit [OF this lv] show ?thesis .
qed



end
